theory Spec2Isabelle
  imports Complex_Main "HOL-Library.Sublist"
begin

section \<open>Auto-moderation of the Discord bot: spam tracker and message pipeline\<close>

text \<open>
  This theory embeds the auto-moderation part of \<^verbatim>\<open>bot/cogs/moderation.py\<close>:
  the class \<^verbatim>\<open>_MessageRecord\<close> and the methods \<^verbatim>\<open>on_message\<close>,
  \<^verbatim>\<open>_handle_word_filter\<close> and \<^verbatim>\<open>_handle_spam_detection\<close> of the cog
  \<^verbatim>\<open>Moderation\<close>.

  Conventions of the embedding:
  \<^item> timestamps are the values of \<^verbatim>\<open>time.monotonic()\<close>; they are modelled as
    \<^typ>\<open>real\<close> numbers, so the rounding of the float subtraction
    \<^verbatim>\<open>now - interval\<close> is not modelled, only its order;
  \<^item> strings are \<^typ>\<open>string\<close> (lists of 8-bit characters) and
    \<^verbatim>\<open>str.lower()\<close> is modelled on the ASCII letters;
  \<^item> the mutable \<^verbatim>\<open>defaultdict\<close> is a map that every handler takes and returns;
  \<^item> each awaited Discord call is an actuator whose result (normal return or raised
    exception) is an input, and every attempted call is appended to a trace;
  \<^item> one handler runs to completion before the next one starts.
\<close>

subsection \<open>The per-member record \<^verbatim>\<open>_MessageRecord\<close>\<close>

text \<open>\<^verbatim>\<open>self.messages: list[tuple[str, float]] = []\<close>\<close>

record MessageRecord =
  messages :: "(string \<times> real) list"

definition MessageRecord_init :: MessageRecord where
  "MessageRecord_init = \<lparr>messages = []\<rparr>"

text \<open>\<^verbatim>\<open>self.messages.append((content, now))\<close>\<close>

definition add :: "MessageRecord \<Rightarrow> string \<Rightarrow> real \<Rightarrow> MessageRecord" where
  "add r content now = r\<lparr>messages := messages r @ [(content, now)]\<rparr>"

text \<open>\<^verbatim>\<open>self.messages = [(c, t) for c, t in self.messages if t >= cutoff]\<close>\<close>

definition prune :: "MessageRecord \<Rightarrow> real \<Rightarrow> MessageRecord" where
  "prune r cutoff = r\<lparr>messages := filter (\<lambda>(c, t). t \<ge> cutoff) (messages r)\<rparr>"

text \<open>\<^verbatim>\<open>return sum(1 for c, _ in self.messages if c == content)\<close>\<close>

definition identical_count :: "MessageRecord \<Rightarrow> string \<Rightarrow> int" where
  "identical_count r content =
     sum_list (map (\<lambda>(c, _). 1) (filter (\<lambda>(c, _). c = content) (messages r)))"

subsection \<open>Messages, configuration, tracker\<close>

record Permissions =
  manage_messages :: bool
  kick_members :: bool
  ban_members :: bool

text \<open>
  The author of a message. \<open>guild_permissions\<close> is \<open>None\<close> when the author object
  is a plain \<^verbatim>\<open>discord.User\<close> and not a \<^verbatim>\<open>discord.Member\<close>: the source
  asserts \<^verbatim>\<open>isinstance(message.author, discord.Member)\<close> before it reads the
  permissions.
\<close>

record Author =
  author_id :: int
  bot :: bool
  guild_permissions :: "Permissions option"

text \<open>\<open>guild\<close> is \<open>None\<close> for a direct message and the guild's id otherwise.\<close>

record Message =
  author :: Author
  guild :: "int option"
  content :: string

text \<open>
  The dictionary read from \<^verbatim>\<open>config.json\<close>; a field is \<open>None\<close> when the key is
  absent, and \<^verbatim>\<open>self._config.get(key, default)\<close> supplies the default then.
\<close>

record Config =
  word_filter :: "string list option"
  spam_threshold :: "int option"
  spam_interval :: "int option"

definition config_get :: "'a option \<Rightarrow> 'a \<Rightarrow> 'a" where
  "config_get v d = (case v of None \<Rightarrow> d | Some x \<Rightarrow> x)"

text \<open>\<^verbatim>\<open>self._spam_tracker: defaultdict[tuple[int, int], _MessageRecord]\<close>\<close>

type_synonym tracker = "int \<times> int \<rightharpoonup> MessageRecord"

text \<open>\<^verbatim>\<open>self._spam_tracker[key]\<close> on the defaultdict: a missing key is created.\<close>

definition tracker_getitem :: "tracker \<Rightarrow> int \<times> int \<Rightarrow> MessageRecord" where
  "tracker_getitem trk key = (case trk key of None \<Rightarrow> MessageRecord_init | Some r \<Rightarrow> r)"

subsection \<open>Actuators, exceptions and traces\<close>

text \<open>
  \<open>Forbidden\<close> is \<^verbatim>\<open>discord.Forbidden\<close>; \<open>HTTPException\<close> stands for any other
  \<^verbatim>\<open>discord.HTTPException\<close> (not-found, server error, ...), which
  \<^verbatim>\<open>except discord.Forbidden\<close> does not catch.
\<close>

datatype exn = Forbidden | HTTPException | AssertionError

datatype api_result = Returns | Raises exn

text \<open>The results of the awaited calls of one handler run.\<close>

record Actuators =
  message_delete :: api_result
  channel_purge :: api_result
  member_timeout :: api_result
  channel_send :: api_result

text \<open>
  The calls a handler makes, in order. \<open>ChannelPurge limit uid\<close> is
  \<^verbatim>\<open>channel.purge(limit=limit, check=lambda m: m.author.id == uid)\<close>,
  \<open>MemberTimeout n\<close> is \<^verbatim>\<open>author.timeout(timedelta(minutes=n), ...)\<close>,
  \<open>ChannelSend title uid\<close> is the warning embed with that title mentioning the author,
  \<open>DeleteAfter d\<close> is \<^verbatim>\<open>warn_msg.delete(delay=d)\<close>, which only schedules the removal,
  and \<open>LogWarning\<close> is a \<^verbatim>\<open>log.warning\<close> call.
\<close>

datatype effect =
    MessageDelete
  | ChannelPurge int int
  | MemberTimeout int
  | ChannelSend string int
  | DeleteAfter int
  | LogWarning string

text \<open>
  What the pipeline decided: \<open>WordFilterAction w\<close> when
  \<^verbatim>\<open>_handle_word_filter(message, w)\<close> was called, \<open>SpamAction\<close> when the threshold branch of
  \<^verbatim>\<open>_handle_spam_detection\<close> was entered.
\<close>

datatype action = NoAction | WordFilterAction string | SpamAction

record Outcome =
  tracker :: tracker
  trace :: "effect list"
  action :: action
  raised :: "exn option"

text \<open>The exception that leaves \<^verbatim>\<open>try: ... except discord.Forbidden: ...\<close>\<close>

fun uncaught :: "api_result \<Rightarrow> exn option" where
  "uncaught Returns = None"
| "uncaught (Raises Forbidden) = None"
| "uncaught (Raises e) = Some e"

fun raises :: "api_result \<Rightarrow> exn option" where
  "raises Returns = None"
| "raises (Raises e) = Some e"

subsection \<open>Strings\<close>

text \<open>\<^verbatim>\<open>str.lower()\<close> on ASCII.\<close>

definition lower_char :: "char \<Rightarrow> char" where
  "lower_char c =
     (let n = (of_char c :: nat) in if 65 \<le> n \<and> n \<le> 90 then char_of (n + 32) else c)"

definition lower :: "string \<Rightarrow> string" where
  "lower s = map lower_char s"

subsection \<open>The handlers\<close>

text \<open>
  \<^verbatim>\<open>_handle_word_filter\<close>: delete the message; on \<^verbatim>\<open>discord.Forbidden\<close> log and
  return; otherwise send the warning and schedule its removal after 5 seconds.
\<close>

definition handle_word_filter ::
    "Actuators \<Rightarrow> tracker \<Rightarrow> Message \<Rightarrow> string \<Rightarrow> Outcome" where
  "handle_word_filter env trk message matched_word =
     (case message_delete env of
        Raises e \<Rightarrow>
          if e = Forbidden then
            \<lparr>tracker = trk,
             trace = [MessageDelete, LogWarning ''Missing permissions to delete message''],
             action = WordFilterAction matched_word, raised = None\<rparr>
          else
            \<lparr>tracker = trk, trace = [MessageDelete],
             action = WordFilterAction matched_word, raised = Some e\<rparr>
      | Returns \<Rightarrow>
          (case channel_send env of
             Raises e \<Rightarrow>
               \<lparr>tracker = trk,
                trace = [MessageDelete,
                         ChannelSend ''Message Removed'' (author_id (author message))],
                action = WordFilterAction matched_word, raised = Some e\<rparr>
           | Returns \<Rightarrow>
               \<lparr>tracker = trk,
                trace = [MessageDelete,
                         ChannelSend ''Message Removed'' (author_id (author message)),
                         DeleteAfter 5],
                action = WordFilterAction matched_word, raised = None\<rparr>))"

text \<open>
  \<^verbatim>\<open>_handle_spam_detection\<close>: prune the member's record with the cutoff
  \<^verbatim>\<open>now - interval\<close>, add the message, count; at the threshold purge, time out, notify
  and delete the tracker entry.
\<close>

definition handle_spam_detection ::
    "Config \<Rightarrow> Actuators \<Rightarrow> tracker \<Rightarrow> Message \<Rightarrow> real \<Rightarrow> Outcome" where
  "handle_spam_detection cfg env trk message now =
     (case guild message of
        None \<Rightarrow> \<lparr>tracker = trk, trace = [], action = NoAction, raised = Some AssertionError\<rparr>
      | Some guild_id \<Rightarrow>
     (case guild_permissions (author message) of
        None \<Rightarrow> \<lparr>tracker = trk, trace = [], action = NoAction, raised = Some AssertionError\<rparr>
      | Some _ \<Rightarrow>
       (let threshold = config_get (spam_threshold cfg) 5;
            interval = config_get (spam_interval cfg) 10;
            uid = author_id (author message);
            key = (guild_id, uid);
            record0 = tracker_getitem trk key;
            record1 = add (prune record0 (now - of_int interval)) (content message) now;
            trk1 = trk(key \<mapsto> record1)
        in
          if identical_count record1 (content message) \<ge> threshold then
            (let tr1 = [ChannelPurge (threshold + 5) uid] in
             if uncaught (channel_purge env) \<noteq> None then
               \<lparr>tracker = trk1, trace = tr1, action = SpamAction,
                raised = uncaught (channel_purge env)\<rparr>
             else
            (let tr2 = tr1 @ [MemberTimeout 5] in
             if uncaught (member_timeout env) \<noteq> None then
               \<lparr>tracker = trk1, trace = tr2, action = SpamAction,
                raised = uncaught (member_timeout env)\<rparr>
             else
            (let tr3 = tr2
                   @ (if member_timeout env = Raises Forbidden
                      then [LogWarning ''Missing permissions to timeout''] else [])
                   @ [ChannelSend ''Spam Detected'' uid] in
             if raises (channel_send env) \<noteq> None then
               \<lparr>tracker = trk1, trace = tr3, action = SpamAction,
                raised = raises (channel_send env)\<rparr>
             else
               \<lparr>tracker = trk1(key := None), trace = tr3 @ [DeleteAfter 5],
                action = SpamAction, raised = None\<rparr>)))
          else
            \<lparr>tracker = trk1, trace = [], action = NoAction, raised = None\<rparr>)))"

text \<open>
  The loop \<^verbatim>\<open>for word in word_filter: if word.lower() in content_lower: ...\<close>: the first
  word of the list whose lowercased form is a substring of the lowercased content.
\<close>

fun word_filter_loop :: "string list \<Rightarrow> string \<Rightarrow> string option" where
  "word_filter_loop [] content_lower = None"
| "word_filter_loop (word # ws) content_lower =
     (if sublist (lower word) content_lower then Some word
      else word_filter_loop ws content_lower)"

text \<open>\<^verbatim>\<open>on_message\<close>\<close>

definition on_message ::
    "Config \<Rightarrow> Actuators \<Rightarrow> tracker \<Rightarrow> Message \<Rightarrow> real \<Rightarrow> Outcome" where
  "on_message cfg env trk message now =
     (if bot (author message) \<or> guild message = None then
        \<lparr>tracker = trk, trace = [], action = NoAction, raised = None\<rparr>
      else
        (case guild_permissions (author message) of
           None \<Rightarrow>
             \<lparr>tracker = trk, trace = [], action = NoAction, raised = Some AssertionError\<rparr>
         | Some perms \<Rightarrow>
             if manage_messages perms \<or> kick_members perms \<or> ban_members perms then
               \<lparr>tracker = trk, trace = [], action = NoAction, raised = None\<rparr>
             else
               (let word_filter = config_get (word_filter cfg) [] in
                case (if word_filter \<noteq> []
                      then word_filter_loop word_filter (lower (content message))
                      else None) of
                  Some word \<Rightarrow> handle_word_filter env trk message word
                | None \<Rightarrow> handle_spam_detection cfg env trk message now)))"

subsection \<open>Runs of the listener\<close>

text \<open>
  A run handles the events one after the other, each against the tracker the previous
  handler left behind (the tracker is mutated in place, so what a handler did before it
  raised stays).
\<close>

type_synonym event = "Actuators \<times> Message \<times> real"

fun run :: "Config \<Rightarrow> tracker \<Rightarrow> event list \<Rightarrow> Outcome list" where
  "run cfg trk [] = []"
| "run cfg trk ((env, message, now) # evs) =
     (let out = on_message cfg env trk message now in out # run cfg (tracker out) evs)"

definition final_tracker :: "tracker \<Rightarrow> Outcome list \<Rightarrow> tracker" where
  "final_tracker trk outs = (if outs = [] then trk else tracker (last outs))"

subsection \<open>Predicates used in the statements\<close>

text \<open>
  The first two tests of \<^verbatim>\<open>on_message\<close>: the author is a bot, the message is a direct
  message, or the author is a member holding one of the three moderation permissions.
\<close>

definition exempt :: "Message \<Rightarrow> bool" where
  "exempt message =
     (bot (author message) \<or> guild message = None \<or>
      (case guild_permissions (author message) of
         None \<Rightarrow> False
       | Some perms \<Rightarrow> manage_messages perms \<or> kick_members perms \<or> ban_members perms))"

text \<open>A guild message of a member who is not a bot and holds none of the permissions.\<close>

definition non_exempt :: "Message \<Rightarrow> bool" where
  "non_exempt message =
     (\<not> bot (author message) \<and> guild message \<noteq> None \<and>
      (case guild_permissions (author message) of
         None \<Rightarrow> False
       | Some perms \<Rightarrow>
           \<not> manage_messages perms \<and> \<not> kick_members perms \<and> \<not> ban_members perms))"

text \<open>The test \<^verbatim>\<open>word.lower() in content_lower\<close> of the word-filter loop.\<close>

definition matches :: "string \<Rightarrow> string \<Rightarrow> bool" where
  "matches word text = sublist (lower word) (lower text)"

text \<open>
  The side effects of a spam action leave no exception: purge and timeout return or raise
  \<^verbatim>\<open>discord.Forbidden\<close>, and the notice is sent.
\<close>

definition spam_effects_complete :: "Actuators \<Rightarrow> bool" where
  "spam_effects_complete env =
     (uncaught (channel_purge env) = None \<and> uncaught (member_timeout env) = None \<and>
      raises (channel_send env) = None)"

text \<open>The tracker key of a guild message.\<close>

definition key_of :: "Message \<Rightarrow> (int \<times> int) option" where
  "key_of message =
     (case guild message of
        None \<Rightarrow> None
      | Some guild_id \<Rightarrow> Some (guild_id, author_id (author message)))"

text \<open>
  The events of one author sending the same message repeatedly: each send has its own
  actuator results and its own clock value.
\<close>

definition sends :: "Message \<Rightarrow> (Actuators \<times> real) list \<Rightarrow> event list" where
  "sends message ens = map (\<lambda>(env, now). (env, message, now)) ens"

text \<open>Any two of the clock values are at most \<open>W\<close> seconds apart.\<close>

definition within_window :: "int \<Rightarrow> real list \<Rightarrow> bool" where
  "within_window W ts = (\<forall>a \<in> set ts. \<forall>b \<in> set ts. b - a \<le> of_int W)"

text \<open>
  A burst for a configuration: as many sends as the threshold (at least one), within the
  window.
\<close>

definition burst :: "Config \<Rightarrow> (Actuators \<times> real) list \<Rightarrow> bool" where
  "burst cfg ens =
     (int (length ens) = config_get (spam_threshold cfg) 5 \<and>
      within_window (config_get (spam_interval cfg) 10) (map snd ens) \<and>
      ens \<noteq> [])"

subsection \<open>Example values\<close>

definition no_permissions :: Permissions where
  "no_permissions = \<lparr>manage_messages = False, kick_members = False, ban_members = False\<rparr>"

definition member_message :: "int \<Rightarrow> int \<Rightarrow> string \<Rightarrow> Message" where
  "member_message guild_id uid text =
     \<lparr>author = \<lparr>author_id = uid, bot = False, guild_permissions = Some no_permissions\<rparr>,
      guild = Some guild_id, content = text\<rparr>"

definition moderator_message :: "int \<Rightarrow> int \<Rightarrow> string \<Rightarrow> Message" where
  "moderator_message guild_id uid text =
     \<lparr>author = \<lparr>author_id = uid, bot = False,
                guild_permissions = Some (no_permissions\<lparr>manage_messages := True\<rparr>)\<rparr>,
      guild = Some guild_id, content = text\<rparr>"

definition all_return :: Actuators where
  "all_return = \<lparr>message_delete = Returns, channel_purge = Returns,
                  member_timeout = Returns, channel_send = Returns\<rparr>"

definition config_of :: "string list \<Rightarrow> int \<Rightarrow> int \<Rightarrow> Config" where
  "config_of ws threshold interval =
     \<lparr>word_filter = Some ws, spam_threshold = Some threshold, spam_interval = Some interval\<rparr>"

section \<open>Properties\<close>

subsection \<open>Basic facts about records\<close>

lemma messages_add [simp]: "messages (add r c t) = messages r @ [(c, t)]"
  by (simp add: add_def)

lemma messages_prune [simp]:
  "messages (prune r cutoff) = filter (\<lambda>e. cutoff \<le> snd e) (messages r)"
  by (simp add: prune_def case_prod_unfold)

lemma sum_ones_filter:
  "sum_list (map (\<lambda>(c, _). 1) (filter (\<lambda>(c', _). c' = c) xs))
     = int (length (filter (\<lambda>e. fst e = c) xs))"
  by (induction xs) auto

lemma identical_count_length:
  "identical_count r c = int (length (filter (\<lambda>e. fst e = c) (messages r)))"
  by (simp add: identical_count_def sum_ones_filter)

lemma identical_count_add:
  "identical_count (add r c' t) c = identical_count r c + (if c' = c then 1 else 0)"
  by (simp add: identical_count_length)

lemma identical_count_nonneg: "0 \<le> identical_count r c"
  by (simp add: identical_count_length)

lemma length_filter_conj_le:
  "length (filter (\<lambda>x. Q x \<and> P x) xs) \<le> length (filter P xs)"
  by (induction xs) auto

lemma identical_count_prune_le: "identical_count (prune r k) c \<le> identical_count r c"
  by (simp add: identical_count_length length_filter_conj_le)

lemma count_list_filter:
  "count_list (filter P xs) e = (if P e then count_list xs e else 0)"
  by (induction xs) auto

lemma sorted_filter_dropWhile:
  "sorted (map snd xs) \<Longrightarrow>
     filter (\<lambda>e. (k::real) \<le> snd e) xs = dropWhile (\<lambda>e. snd e < k) xs"
proof (induction xs)
  case Nil
  then show ?case by simp
next
  case (Cons x xs)
  show ?case
  proof (cases "snd x < k")
    case True
    with Cons show ?thesis by simp
  next
    case False
    with Cons.prems have "\<forall>e \<in> set (x # xs). k \<le> snd e" by auto
    then have "filter (\<lambda>e. k \<le> snd e) (x # xs) = x # xs"
      by (simp only: filter_True)
    with False show ?thesis by simp
  qed
qed

subsection \<open>The window of a record\<close>

text \<open>
  Claim C2. \<^verbatim>\<open>prune(cutoff)\<close> removes exactly the stored entries whose timestamp is
  strictly less than the cutoff. For every record (every list of entries is what some
  sequence of \<^verbatim>\<open>add\<close> calls leaves): every entry that remains has a timestamp at least
  the cutoff; the entries that remain are those of the record that are not older than the
  cutoff; an entry with timestamp at least the cutoff occurs after the prune as often as
  before it; the survivors keep their relative order; and when the timestamps were
  recorded in non-decreasing order the prune drops a front segment of the list.
\<close>

theorem prune_window_correct:
  "(\<forall>e \<in> set (messages (prune r cutoff)). cutoff \<le> snd e)
   \<and> set (messages (prune r cutoff)) = {e \<in> set (messages r). \<not> snd e < cutoff}
   \<and> (\<forall>e. cutoff \<le> snd e \<longrightarrow>
          count_list (messages (prune r cutoff)) e = count_list (messages r) e)
   \<and> subseq (messages (prune r cutoff)) (messages r)
   \<and> (sorted (map snd (messages r)) \<longrightarrow>
          messages (prune r cutoff) = dropWhile (\<lambda>e. snd e < cutoff) (messages r))"
proof (intro conjI)
  show "\<forall>e \<in> set (messages (prune r cutoff)). cutoff \<le> snd e" by simp
  show "set (messages (prune r cutoff)) = {e \<in> set (messages r). \<not> snd e < cutoff}"
    by (auto simp: not_less)
  show "\<forall>e. cutoff \<le> snd e \<longrightarrow>
          count_list (messages (prune r cutoff)) e = count_list (messages r) e"
    by (simp add: count_list_filter)
  show "subseq (messages (prune r cutoff)) (messages r)" by simp
  show "sorted (map snd (messages r)) \<longrightarrow>
          messages (prune r cutoff) = dropWhile (\<lambda>e. snd e < cutoff) (messages r)"
    by (simp add: sorted_filter_dropWhile)
qed

theorem prune_window_correct_witness:
  "sorted (map snd (messages \<lparr>messages = [(''hi'', 0), (''bye'', 1), (''hi'', 7), (''yo'', 9)]\<rparr>))
   \<and> messages (prune \<lparr>messages = [(''hi'', 0), (''bye'', 1), (''hi'', 7), (''yo'', 9)]\<rparr> 5)
     = [(''hi'', 7), (''yo'', 9)]"
proof -
  let ?r = "\<lparr>messages = [(''hi'', 0), (''bye'', 1), (''hi'', 7), (''yo'', 9)]\<rparr>"
  have s: "sorted (map snd (messages ?r))" by simp
  from prune_window_correct [of ?r 5]
  have "sorted (map snd (messages ?r)) \<longrightarrow>
          messages (prune ?r 5) = dropWhile (\<lambda>e. snd e < 5) (messages ?r)"
    by blast
  with s have d: "messages (prune ?r 5) = dropWhile (\<lambda>e. snd e < 5) (messages ?r)"
    by blast
  have e: "dropWhile (\<lambda>e. snd e < 5) (messages ?r) = [(''hi'', 7), (''yo'', 9)]"
    by simp
  from d e have "messages (prune ?r 5) = [(''hi'', 7), (''yo'', 9)]"
    by (rule trans)
  with s show ?thesis by (rule conjI)
qed

subsection \<open>Exemption and the word filter\<close>

lemma char_eq_char_of_iff: "c = char_of (n::nat) \<longleftrightarrow> of_char c = take_bit 8 n"
  by (metis char_of_eq_iff)

lemmas eval_lower = lower_def lower_char_def char_of_eq_iff char_eq_char_of_iff

lemma word_filter_loop_None:
  "word_filter_loop ws cl = None \<longleftrightarrow> (\<forall>w \<in> set ws. \<not> sublist (lower w) cl)"
  by (induction ws) auto

lemma word_filter_loop_Some:
  "word_filter_loop ws cl = Some w \<Longrightarrow>
     \<exists>pre post. ws = pre @ w # post \<and> sublist (lower w) cl \<and>
                (\<forall>v \<in> set pre. \<not> sublist (lower v) cl)"
proof (induction ws)
  case Nil
  then show ?case by simp
next
  case (Cons a ws)
  show ?case
  proof (cases "sublist (lower a) cl")
    case True
    with Cons.prems have "a = w" by simp
    with True have "a # ws = [] @ w # ws \<and> sublist (lower w) cl \<and>
                (\<forall>v \<in> set []. \<not> sublist (lower v) cl)" by simp
    then show ?thesis by blast
  next
    case False
    with Cons.prems have "word_filter_loop ws cl = Some w" by simp
    from Cons.IH [OF this] obtain pre post where
      h: "ws = pre @ w # post" "sublist (lower w) cl" "\<forall>v \<in> set pre. \<not> sublist (lower v) cl"
      by blast
    with False have "a # ws = (a # pre) @ w # post \<and> sublist (lower w) cl \<and>
                (\<forall>v \<in> set (a # pre). \<not> sublist (lower v) cl)" by simp
    then show ?thesis by blast
  qed
qed

lemma on_message_exempt:
  "exempt message \<Longrightarrow>
     on_message cfg env trk message now =
       \<lparr>tracker = trk, trace = [], action = NoAction, raised = None\<rparr>"
  by (auto simp: exempt_def on_message_def split: option.splits)

lemma on_message_non_exempt:
  "non_exempt message \<Longrightarrow>
     on_message cfg env trk message now =
       (case word_filter_loop (config_get (word_filter cfg) []) (lower (content message)) of
          Some word \<Rightarrow> handle_word_filter env trk message word
        | None \<Rightarrow> handle_spam_detection cfg env trk message now)"
  by (auto simp: non_exempt_def on_message_def Let_def split: option.splits)

lemma handle_word_filter_tracker [simp]:
  "tracker (handle_word_filter env trk message w) = trk"
  by (simp add: handle_word_filter_def split: api_result.splits)

lemma handle_word_filter_action [simp]:
  "action (handle_word_filter env trk message w) = WordFilterAction w"
  by (simp add: handle_word_filter_def split: api_result.splits)

lemma handle_word_filter_trace:
  "\<exists>rest. trace (handle_word_filter env trk message w) = MessageDelete # rest \<and>
     set rest \<subseteq> {LogWarning ''Missing permissions to delete message'',
                  ChannelSend ''Message Removed'' (author_id (author message)),
                  DeleteAfter 5}"
  by (simp add: handle_word_filter_def split: api_result.splits)

text \<open>
  Claim C4. If the author is a bot account, or the message was sent outside a guild, or
  the author holds one of \<^verbatim>\<open>manage_messages\<close>, \<^verbatim>\<open>kick_members\<close>,
  \<^verbatim>\<open>ban_members\<close>, then \<^verbatim>\<open>on_message\<close> returns at once: no call is made, no action is
  taken, nothing is raised and the tracker is the one it was given, whatever the
  configuration, the content and the earlier history are.
\<close>

theorem exempt_no_action:
  "exempt message \<Longrightarrow>
     on_message cfg env trk message now =
       \<lparr>tracker = trk, trace = [], action = NoAction, raised = None\<rparr>"
  by (rule on_message_exempt)

text \<open>
  Claim C5. For a non-exempt message whose content matches at least one configured
  filter word, the listener calls the word-filter handler with the first matching word of
  the configured list (no earlier word of the list matches), the outcome is that handler's
  alone, the tracker is unchanged, and neither the purge nor the timeout of the spam branch
  is attempted, whatever the tracker held before.
\<close>

theorem word_filter_precedence:
  assumes "non_exempt message"
    and "\<exists>w \<in> set (config_get (word_filter cfg) []). matches w (content message)"
  shows "\<exists>pre w post.
           config_get (word_filter cfg) [] = pre @ w # post \<and>
           (\<forall>v \<in> set pre. \<not> matches v (content message)) \<and>
           matches w (content message) \<and>
           on_message cfg env trk message now = handle_word_filter env trk message w \<and>
           action (on_message cfg env trk message now) = WordFilterAction w \<and>
           tracker (on_message cfg env trk message now) = trk \<and>
           (\<forall>l u. ChannelPurge l u \<notin> set (trace (on_message cfg env trk message now))) \<and>
           (\<forall>n. MemberTimeout n \<notin> set (trace (on_message cfg env trk message now)))"
proof -
  let ?ws = "config_get (word_filter cfg) []"
  let ?cl = "lower (content message)"
  from assms(2) have "word_filter_loop ?ws ?cl \<noteq> None"
    by (simp add: word_filter_loop_None matches_def)
  then obtain w where w: "word_filter_loop ?ws ?cl = Some w" by blast
  from word_filter_loop_Some [OF w] obtain pre post where
    d: "?ws = pre @ w # post" "sublist (lower w) ?cl" "\<forall>v \<in> set pre. \<not> sublist (lower v) ?cl"
    by blast
  have om: "on_message cfg env trk message now = handle_word_filter env trk message w"
    using assms(1) w by (simp add: on_message_non_exempt)
  obtain rest where
    r: "trace (handle_word_filter env trk message w) = MessageDelete # rest"
       "set rest \<subseteq> {LogWarning ''Missing permissions to delete message'',
                  ChannelSend ''Message Removed'' (author_id (author message)),
                  DeleteAfter 5}"
    using handle_word_filter_trace by blast
  have np: "\<forall>l u. ChannelPurge l u \<notin> set (trace (on_message cfg env trk message now))"
    using r by (auto simp: om)
  have nt: "\<forall>n. MemberTimeout n \<notin> set (trace (on_message cfg env trk message now))"
    using r by (auto simp: om)
  show ?thesis
    using d om np nt by (intro exI [of _ pre] exI [of _ w] exI [of _ post]) (simp add: matches_def)
qed

lemmas example_defs = no_permissions_def member_message_def moderator_message_def
  all_return_def config_of_def

lemmas eval_handlers = on_message_def handle_spam_detection_def Let_def example_defs
  config_get_def tracker_getitem_def MessageRecord_init_def identical_count_def
  add_def prune_def

theorem exempt_no_action_witness:
  "exempt (moderator_message 1 2 ''buy spam'')
   \<and> on_message (config_of [''spam''] 1 10) all_return Map.empty
         (moderator_message 1 2 ''buy spam'') 0
       = \<lparr>tracker = Map.empty, trace = [], action = NoAction, raised = None\<rparr>"
  using exempt_no_action [of "moderator_message 1 2 ''buy spam''" "config_of [''spam''] 1 10"
      all_return Map.empty 0]
  by (simp add: exempt_def example_defs)

theorem word_filter_precedence_witness:
  "non_exempt (member_message 1 2 ''This is SPAM'')
   \<and> matches ''spam'' ''This is SPAM''
   \<and> action (on_message (config_of [''egg'', ''spam'', ''is''] 1 10) all_return Map.empty
         (member_message 1 2 ''This is SPAM'') 0) = WordFilterAction ''spam''
   \<and> tracker (on_message (config_of [''egg'', ''spam'', ''is''] 1 10) all_return Map.empty
         (member_message 1 2 ''This is SPAM'') 0) = Map.empty"
proof -
  have ne: "non_exempt (member_message 1 2 ''This is SPAM'')"
    by (simp add: non_exempt_def example_defs)
  have m1: "matches ''spam'' ''This is SPAM''"
    by (simp add: matches_def eval_lower sublist_Cons_right)
  have m0: "\<not> matches ''egg'' ''This is SPAM''"
    by (simp add: matches_def eval_lower sublist_Cons_right)
  have ws: "config_get (word_filter (config_of [''egg'', ''spam'', ''is''] 1 10)) []
              = [''egg'', ''spam'', ''is'']"
    by (simp add: config_get_def config_of_def)
  have ex: "\<exists>w \<in> set (config_get (word_filter (config_of [''egg'', ''spam'', ''is''] 1 10)) []).
              matches w (content (member_message 1 2 ''This is SPAM''))"
    using m1 by (simp add: ws member_message_def)
  from word_filter_precedence [OF ne ex, of all_return Map.empty 0]
  obtain pre w post where
    h: "[''egg'', ''spam'', ''is''] = pre @ w # post"
       "\<forall>v \<in> set pre. \<not> matches v ''This is SPAM''"
       "matches w ''This is SPAM''"
       "action (on_message (config_of [''egg'', ''spam'', ''is''] 1 10) all_return Map.empty
         (member_message 1 2 ''This is SPAM'') 0) = WordFilterAction w"
       "tracker (on_message (config_of [''egg'', ''spam'', ''is''] 1 10) all_return Map.empty
         (member_message 1 2 ''This is SPAM'') 0) = Map.empty"
    unfolding ws by (auto simp: member_message_def)
  have "w = ''spam''"
  proof (cases pre)
    case Nil
    with h(1) have "w = ''egg''" by simp
    with h(3) m0 show ?thesis by simp
  next
    case (Cons a pre')
    note c1 = Cons
    show ?thesis
    proof (cases pre')
      case Nil
      with c1 h(1) show ?thesis by simp
    next
      case (Cons b pre'')
      with c1 h(1) have "b = ''spam''" by simp
      with c1 Cons h(2) m1 show ?thesis by simp
    qed
  qed
  with ne m1 h(4,5) show ?thesis by simp
qed

subsection \<open>One spam check\<close>

lemma handle_spam_detection_record:
  assumes "guild message = Some gid" and "guild_permissions (author message) = Some p"
  shows "action (handle_spam_detection cfg env trk message now) =
           (if config_get (spam_threshold cfg) 5 \<le>
                 identical_count
                   (add (prune (tracker_getitem trk (gid, author_id (author message)))
                           (now - of_int (config_get (spam_interval cfg) 10)))
                        (content message) now)
                   (content message)
            then SpamAction else NoAction)"
  using assms by (simp add: handle_spam_detection_def Let_def)

lemma handle_spam_detection_no_trigger:
  assumes "guild message = Some gid" and "guild_permissions (author message) = Some p"
    and "identical_count
           (add (prune (tracker_getitem trk (gid, author_id (author message)))
                   (now - of_int (config_get (spam_interval cfg) 10)))
                (content message) now)
           (content message) < config_get (spam_threshold cfg) 5"
  shows "handle_spam_detection cfg env trk message now =
           \<lparr>tracker = trk((gid, author_id (author message)) \<mapsto>
                add (prune (tracker_getitem trk (gid, author_id (author message)))
                      (now - of_int (config_get (spam_interval cfg) 10)))
                    (content message) now),
            trace = [], action = NoAction, raised = None\<rparr>"
  using assms by (simp add: handle_spam_detection_def Let_def)

lemma identical_count_add_prune:
  "identical_count (add (prune r k) c t) c
     = 1 + int (length (filter (\<lambda>e. fst e = c \<and> k \<le> snd e) (messages r)))"
  by (simp add: identical_count_length conj_commute)

text \<open>
  Claim C3. One spam check of a guild member's message at time \<open>now\<close> with window
  \<open>W\<close> prunes with the cutoff \<open>now - W\<close>, then records the message, then counts.
  So the count that is compared with the threshold is one (the message itself, which its
  own prune never removes, whatever \<open>W\<close> is) plus the number of stored entries with the
  same content and a timestamp at least \<open>now - W\<close>; when no action follows, the stored
  list is the pruned old list followed by the new entry; and when every old duplicate has
  expired the count is exactly 1, which triggers nothing for a threshold above 1.
\<close>

theorem spam_check_order:
  assumes "guild message = Some gid" and "guild_permissions (author message) = Some p"
  shows "action (handle_spam_detection cfg env trk message now) =
           (if config_get (spam_threshold cfg) 5 \<le>
                 1 + int (length (filter
                       (\<lambda>e. fst e = content message \<and>
                            now - of_int (config_get (spam_interval cfg) 10) \<le> snd e)
                       (messages (tracker_getitem trk (gid, author_id (author message))))))
            then SpamAction else NoAction)
       \<and> (action (handle_spam_detection cfg env trk message now) = NoAction \<longrightarrow>
            tracker (handle_spam_detection cfg env trk message now)
                (gid, author_id (author message))
              = Some \<lparr>messages =
                  filter (\<lambda>e. now - of_int (config_get (spam_interval cfg) 10) \<le> snd e)
                    (messages (tracker_getitem trk (gid, author_id (author message))))
                  @ [(content message, now)]\<rparr>)
       \<and> ((\<forall>e \<in> set (messages (tracker_getitem trk (gid, author_id (author message)))).
              fst e = content message \<longrightarrow>
              snd e < now - of_int (config_get (spam_interval cfg) 10)) \<longrightarrow>
            identical_count
              (add (prune (tracker_getitem trk (gid, author_id (author message)))
                     (now - of_int (config_get (spam_interval cfg) 10)))
                   (content message) now)
              (content message) = 1
            \<and> (1 < config_get (spam_threshold cfg) 5 \<longrightarrow>
                 action (handle_spam_detection cfg env trk message now) = NoAction \<and>
                 trace (handle_spam_detection cfg env trk message now) = []))"
proof -
  let ?key = "(gid, author_id (author message))"
  let ?k = "now - of_int (config_get (spam_interval cfg) 10)"
  let ?r0 = "tracker_getitem trk ?key"
  let ?r1 = "add (prune ?r0 ?k) (content message) now"
  let ?out = "handle_spam_detection cfg env trk message now"
  have act: "action ?out =
      (if config_get (spam_threshold cfg) 5 \<le> identical_count ?r1 (content message)
       then SpamAction else NoAction)"
    by (rule handle_spam_detection_record [OF assms])
  have cnt: "identical_count ?r1 (content message) =
      1 + int (length (filter (\<lambda>e. fst e = content message \<and> ?k \<le> snd e) (messages ?r0)))"
    by (rule identical_count_add_prune)
  have a: "action ?out =
      (if config_get (spam_threshold cfg) 5 \<le>
          1 + int (length (filter (\<lambda>e. fst e = content message \<and> ?k \<le> snd e) (messages ?r0)))
       then SpamAction else NoAction)"
    using act cnt by simp
  have b: "action ?out = NoAction \<longrightarrow>
      tracker ?out ?key
        = Some \<lparr>messages = filter (\<lambda>e. ?k \<le> snd e) (messages ?r0) @ [(content message, now)]\<rparr>"
  proof
    assume "action ?out = NoAction"
    with act have lt: "identical_count ?r1 (content message) < config_get (spam_threshold cfg) 5"
      by (simp split: if_splits)
    have "tracker ?out ?key = Some ?r1"
      by (simp add: handle_spam_detection_no_trigger [OF assms lt])
    moreover have "?r1 = \<lparr>messages = filter (\<lambda>e. ?k \<le> snd e) (messages ?r0) @ [(content message, now)]\<rparr>"
      by (simp add: add_def prune_def case_prod_unfold)
    ultimately show "tracker ?out ?key
        = Some \<lparr>messages = filter (\<lambda>e. ?k \<le> snd e) (messages ?r0) @ [(content message, now)]\<rparr>"
      by simp
  qed
  have c: "(\<forall>e \<in> set (messages ?r0). fst e = content message \<longrightarrow> snd e < ?k) \<longrightarrow>
            identical_count ?r1 (content message) = 1
            \<and> (1 < config_get (spam_threshold cfg) 5 \<longrightarrow>
                 action ?out = NoAction \<and> trace ?out = [])"
  proof
    assume old: "\<forall>e \<in> set (messages ?r0). fst e = content message \<longrightarrow> snd e < ?k"
    then have "filter (\<lambda>e. fst e = content message \<and> ?k \<le> snd e) (messages ?r0) = []"
      by (auto simp: filter_empty_conv)
    with cnt have one: "identical_count ?r1 (content message) = 1" by simp
    have "1 < config_get (spam_threshold cfg) 5 \<longrightarrow> action ?out = NoAction \<and> trace ?out = []"
    proof
      assume "1 < config_get (spam_threshold cfg) 5"
      with one have lt: "identical_count ?r1 (content message) < config_get (spam_threshold cfg) 5"
        by simp
      show "action ?out = NoAction \<and> trace ?out = []"
        by (simp add: handle_spam_detection_no_trigger [OF assms lt])
    qed
    with one show "identical_count ?r1 (content message) = 1
            \<and> (1 < config_get (spam_threshold cfg) 5 \<longrightarrow>
                 action ?out = NoAction \<and> trace ?out = [])" by simp
  qed
  from a b c show ?thesis by simp
qed

theorem spam_check_order_witness:
  "guild (member_message 1 2 ''hi'') = Some 1
   \<and> guild_permissions (author (member_message 1 2 ''hi'')) = Some no_permissions
   \<and> action (handle_spam_detection (config_of [] 3 10) all_return
          [(1, 2) \<mapsto> \<lparr>messages = [(''hi'', 0)]\<rparr>] (member_message 1 2 ''hi'') 15) = NoAction
   \<and> tracker (handle_spam_detection (config_of [] 3 10) all_return
          [(1, 2) \<mapsto> \<lparr>messages = [(''hi'', 0)]\<rparr>] (member_message 1 2 ''hi'') 15) (1, 2)
       = Some \<lparr>messages = [(''hi'', 15)]\<rparr>"
  using spam_check_order [of "member_message 1 2 ''hi''" 1 no_permissions "config_of [] 3 10"
      all_return "[(1, 2) \<mapsto> \<lparr>messages = [(''hi'', 0)]\<rparr>]" 15]
  by (simp add: example_defs config_get_def tracker_getitem_def)

subsection \<open>Case sensitivity of filter and tracker\<close>

lemma length_filter_card_index:
  "length (filter P xs) = card {i. i < length xs \<and> P (xs ! i)}"
  by (rule length_filter_conv_card)

text \<open>
  Claim C6. The word filter matches case-insensitively on substrings: the loop finds a
  word exactly when the lowercased form of some configured word occurs inside the
  lowercased content, so that the result depends on word and content only through their
  lowercased forms (the word \<open>spam\<close> matches the content \<open>This is SPAM\<close>). The
  duplicate count of the tracker is the number of stored entries whose content is equal
  to the given string, character by character: \<open>Hello\<close> and \<open>hello\<close> have the same
  lowercased form and are still counted apart.
\<close>

theorem filter_case_insensitive_count_exact:
  "(word_filter_loop ws (lower text) \<noteq> None \<longleftrightarrow>
      (\<exists>w \<in> set ws. \<exists>ps ss. lower text = ps @ lower w @ ss))
   \<and> (lower w = lower w' \<and> lower text = lower text' \<longrightarrow>
        matches w text = matches w' text')
   \<and> lower ''This is SPAM'' = ''this is spam''
   \<and> word_filter_loop [''spam''] (lower ''This is SPAM'') = Some ''spam''
   \<and> identical_count r c
        = int (card {i. i < length (messages r) \<and> fst (messages r ! i) = c})
   \<and> lower ''Hello'' = lower ''hello''
   \<and> identical_count \<lparr>messages = [(''Hello'', 0), (''hello'', 1), (''hello '', 2)]\<rparr> ''hello'' = 1
   \<and> identical_count \<lparr>messages = [(''Hello'', 0), (''hello'', 1), (''hello '', 2)]\<rparr> ''Hello'' = 1"
proof (intro conjI)
  show "word_filter_loop ws (lower text) \<noteq> None \<longleftrightarrow>
      (\<exists>w \<in> set ws. \<exists>ps ss. lower text = ps @ lower w @ ss)"
    by (simp add: word_filter_loop_None sublist_def)
  show "lower w = lower w' \<and> lower text = lower text' \<longrightarrow>
        matches w text = matches w' text'"
    by (simp add: matches_def)
  show "lower ''This is SPAM'' = ''this is spam''"
    by (simp add: eval_lower)
  show "word_filter_loop [''spam''] (lower ''This is SPAM'') = Some ''spam''"
    by (simp add: eval_lower sublist_Cons_right)
  show "identical_count r c
        = int (card {i. i < length (messages r) \<and> fst (messages r ! i) = c})"
    by (simp add: identical_count_length length_filter_card_index)
  show "lower ''Hello'' = lower ''hello''"
    by (simp add: eval_lower)
  show "identical_count \<lparr>messages = [(''Hello'', 0), (''hello'', 1), (''hello '', 2)]\<rparr> ''hello'' = 1"
    by (simp add: identical_count_def)
  show "identical_count \<lparr>messages = [(''Hello'', 0), (''hello'', 1), (''hello '', 2)]\<rparr> ''Hello'' = 1"
    by (simp add: identical_count_def)
qed

theorem filter_case_insensitive_count_exact_witness:
  "word_filter_loop [''egg'', ''SPAM''] (lower ''This is spam'') \<noteq> None
   \<and> (\<exists>w \<in> set [''egg'', ''SPAM'']. \<exists>ps ss. lower ''This is spam'' = ps @ lower w @ ss)
   \<and> matches ''SPAM'' ''This is spam'' = matches ''spam'' ''this IS Spam''
   \<and> identical_count \<lparr>messages = [(''Hello'', 0), (''hello'', 1)]\<rparr> ''hello''
        = int (card {i. i < length [(''Hello'', 0::real), (''hello'', 1)]
                        \<and> fst ([(''Hello'', 0::real), (''hello'', 1)] ! i) = ''hello''})"
proof -
  note t = filter_case_insensitive_count_exact
    [of "[''egg'', ''SPAM'']" "''This is spam''" "''SPAM''" "''spam''" "''this IS Spam''"
        "\<lparr>messages = [(''Hello'', 0), (''hello'', 1)]\<rparr>" "''hello''"]
  have l: "word_filter_loop [''egg'', ''SPAM''] (lower ''This is spam'') \<noteq> None"
    by (simp add: eval_lower sublist_Cons_right)
  have e1: "lower ''SPAM'' = lower ''spam''" by (simp add: eval_lower)
  have e2: "lower ''This is spam'' = lower ''this IS Spam''" by (simp add: eval_lower)
  from t l e1 e2 show ?thesis by simp
qed

subsection \<open>A filter word that always matches\<close>

lemma word_filter_guard:
  "(if ws \<noteq> [] then word_filter_loop ws cl else None) = word_filter_loop ws cl"
  by (cases ws) simp_all

lemma on_message_cases:
  "on_message cfg env trk message now =
     (if exempt message then
        \<lparr>tracker = trk, trace = [], action = NoAction, raised = None\<rparr>
      else if guild_permissions (author message) = None then
        \<lparr>tracker = trk, trace = [], action = NoAction, raised = Some AssertionError\<rparr>
      else
        (case word_filter_loop (config_get (word_filter cfg) []) (lower (content message)) of
           Some word \<Rightarrow> handle_word_filter env trk message word
         | None \<Rightarrow> handle_spam_detection cfg env trk message now))"
  unfolding on_message_def exempt_def Let_def word_filter_guard
  by (simp split: option.splits)

lemma on_message_tracker_unless_spam_check:
  assumes "word_filter_loop (config_get (word_filter cfg) []) (lower (content message)) \<noteq> None"
  shows "tracker (on_message cfg env trk message now) = trk \<and>
     action (on_message cfg env trk message now) \<noteq> SpamAction"
proof -
  from assms obtain w where
    "word_filter_loop (config_get (word_filter cfg) []) (lower (content message)) = Some w"
    by blast
  then show ?thesis by (simp add: on_message_cases)
qed

lemma run_filter_always:
  "\<forall>text. word_filter_loop (config_get (word_filter cfg) []) (lower text) \<noteq> None \<Longrightarrow>
     final_tracker trk (run cfg trk evs) = trk \<and>
     (\<forall>out \<in> set (run cfg trk evs). tracker out = trk \<and> action out \<noteq> SpamAction)"
proof (induction evs)
  case Nil
  then show ?case by (simp add: final_tracker_def)
next
  case (Cons ev evs)
  obtain env message now where ev: "ev = (env, message, now)" by (cases ev) auto
  from Cons.prems have
    "word_filter_loop (config_get (word_filter cfg) []) (lower (content message)) \<noteq> None"
    by blast
  from on_message_tracker_unless_spam_check [OF this]
  have h: "tracker (on_message cfg env trk message now) = trk"
          "action (on_message cfg env trk message now) \<noteq> SpamAction" by auto
  from Cons.IH [OF Cons.prems] have ih:
    "final_tracker trk (run cfg trk evs) = trk"
    "\<forall>out \<in> set (run cfg trk evs). tracker out = trk \<and> action out \<noteq> SpamAction" by auto
  have r: "run cfg trk (ev # evs) = on_message cfg env trk message now # run cfg trk evs"
    using h(1) by (simp add: ev Let_def)
  have ft: "final_tracker trk (run cfg trk (ev # evs)) = trk"
  proof (cases "run cfg trk evs = []")
    case True
    then show ?thesis using h(1) by (simp add: r final_tracker_def)
  next
    case False
    then have "final_tracker trk (run cfg trk (ev # evs)) = final_tracker trk (run cfg trk evs)"
      by (simp add: r final_tracker_def)
    with ih(1) show ?thesis by simp
  qed
  from h ih(2) have "\<forall>out \<in> set (run cfg trk (ev # evs)). tracker out = trk \<and> action out \<noteq> SpamAction"
    by (simp add: r)
  with ft show ?case by simp
qed

text \<open>
  Claim C10. A configured filter word that is the empty string is contained in every
  content, and in general a configured word whose lowercased form occurs in the lowercased
  content matches it. For such a word and a non-exempt guild message the listener takes
  the word-filter action: the deletion of the message is requested first, the purge of the
  spam branch is never requested and the tracker is unchanged. With the empty string in
  the list this holds for every message, so no run of the listener ever changes the
  tracker or reaches a spam action.
\<close>

theorem empty_filter_word_matches_all:
  assumes "w \<in> set (config_get (word_filter cfg) [])"
  shows "((w = [] \<or> matches w (content message)) \<and> non_exempt message \<longrightarrow>
           (\<exists>v. action (on_message cfg env trk message now) = WordFilterAction v) \<and>
           tracker (on_message cfg env trk message now) = trk \<and>
           (\<exists>rest. trace (on_message cfg env trk message now) = MessageDelete # rest) \<and>
           (\<forall>l u. ChannelPurge l u \<notin> set (trace (on_message cfg env trk message now))))
       \<and> (w = [] \<longrightarrow>
           final_tracker trk (run cfg trk evs) = trk \<and>
           (\<forall>out \<in> set (run cfg trk evs). tracker out = trk \<and> action out \<noteq> SpamAction))"
proof -
  let ?ws = "config_get (word_filter cfg) []"
  have one: "(w = [] \<or> matches w (content message)) \<and> non_exempt message \<longrightarrow>
           (\<exists>v. action (on_message cfg env trk message now) = WordFilterAction v) \<and>
           tracker (on_message cfg env trk message now) = trk \<and>
           (\<exists>rest. trace (on_message cfg env trk message now) = MessageDelete # rest) \<and>
           (\<forall>l u. ChannelPurge l u \<notin> set (trace (on_message cfg env trk message now)))"
  proof
    assume a: "(w = [] \<or> matches w (content message)) \<and> non_exempt message"
    then have "matches w (content message)"
      by (auto simp: matches_def lower_def)
    with assms have "word_filter_loop ?ws (lower (content message)) \<noteq> None"
      by (auto simp: word_filter_loop_None matches_def)
    then obtain v where v: "word_filter_loop ?ws (lower (content message)) = Some v" by blast
    have om: "on_message cfg env trk message now = handle_word_filter env trk message v"
      using a v by (simp add: on_message_non_exempt)
    obtain rest where
      r: "trace (handle_word_filter env trk message v) = MessageDelete # rest"
         "set rest \<subseteq> {LogWarning ''Missing permissions to delete message'',
                  ChannelSend ''Message Removed'' (author_id (author message)),
                  DeleteAfter 5}"
      using handle_word_filter_trace by blast
    have "\<forall>l u. ChannelPurge l u \<notin> set (trace (on_message cfg env trk message now))"
      using r by (auto simp: om)
    with om r(1) show
      "(\<exists>v. action (on_message cfg env trk message now) = WordFilterAction v) \<and>
           tracker (on_message cfg env trk message now) = trk \<and>
           (\<exists>rest. trace (on_message cfg env trk message now) = MessageDelete # rest) \<and>
           (\<forall>l u. ChannelPurge l u \<notin> set (trace (on_message cfg env trk message now)))"
      by simp
  qed
  have two: "w = [] \<longrightarrow>
           final_tracker trk (run cfg trk evs) = trk \<and>
           (\<forall>out \<in> set (run cfg trk evs). tracker out = trk \<and> action out \<noteq> SpamAction)"
  proof
    assume "w = []"
    then have "\<forall>text. sublist (lower w) (lower text)"
      by (simp add: lower_def)
    with assms have "\<forall>text. word_filter_loop ?ws (lower text) \<noteq> None"
      unfolding word_filter_loop_None by blast
    from run_filter_always [OF this]
    show "final_tracker trk (run cfg trk evs) = trk \<and>
           (\<forall>out \<in> set (run cfg trk evs). tracker out = trk \<and> action out \<noteq> SpamAction)" .
  qed
  from one two show ?thesis by blast
qed

theorem empty_filter_word_matches_all_witness:
  "[] \<in> set (config_get (word_filter (config_of [''egg'', []] 1 10)) [])
   \<and> non_exempt (member_message 1 2 ''hi'')
   \<and> action (on_message (config_of [''egg'', []] 1 10) all_return Map.empty
         (member_message 1 2 ''hi'') 0) = WordFilterAction []
   \<and> tracker (on_message (config_of [''egg'', []] 1 10) all_return Map.empty
         (member_message 1 2 ''hi'') 0) = Map.empty
   \<and> final_tracker Map.empty
         (run (config_of [''egg'', []] 1 10) Map.empty
            [(all_return, member_message 1 2 ''hi'', 0),
             (all_return, member_message 1 2 ''hi'', 1)]) = Map.empty"
proof -
  have m: "[] \<in> set (config_get (word_filter (config_of [''egg'', []] 1 10)) [])"
    by (simp add: config_get_def config_of_def)
  have ne: "non_exempt (member_message 1 2 ''hi'')"
    by (simp add: non_exempt_def example_defs)
  have l: "word_filter_loop [''egg'', []] (lower ''hi'') = Some []"
    by (simp add: eval_lower sublist_Cons_right)
  have ws: "config_get (word_filter (config_of [''egg'', []] 1 10)) [] = [''egg'', []]"
    by (simp add: config_get_def config_of_def)
  have c: "content (member_message 1 2 ''hi'') = ''hi''"
    by (simp add: member_message_def)
  have act: "action (on_message (config_of [''egg'', []] 1 10) all_return Map.empty
         (member_message 1 2 ''hi'') 0) = WordFilterAction []"
    unfolding on_message_non_exempt [OF ne] ws c l by simp
  note t = empty_filter_word_matches_all [OF m, of "member_message 1 2 ''hi''" all_return
      Map.empty 0
      "[(all_return, member_message 1 2 ''hi'', 0), (all_return, member_message 1 2 ''hi'', 1)]"]
  from t ne have
    "tracker (on_message (config_of [''egg'', []] 1 10) all_return Map.empty
         (member_message 1 2 ''hi'') 0) = Map.empty" by blast
  moreover from t have
    "final_tracker Map.empty
         (run (config_of [''egg'', []] 1 10) Map.empty
            [(all_return, member_message 1 2 ''hi'', 0),
             (all_return, member_message 1 2 ''hi'', 1)]) = Map.empty" by blast
  ultimately show ?thesis using m ne act by blast
qed

subsection \<open>Failures in the word-filter handler\<close>

text \<open>
  Claim C7 says that every failure of the message delete is caught and logged and that no
  failure reaches the caller. The handler catches \<^verbatim>\<open>discord.Forbidden\<close> only: when the
  delete raises another \<^verbatim>\<open>discord.HTTPException\<close>, nothing is logged and the exception
  leaves \<^verbatim>\<open>_handle_word_filter\<close> and \<^verbatim>\<open>on_message\<close>.
\<close>

theorem word_filter_transport_error_counterexample:
  "raised (handle_word_filter (all_return\<lparr>message_delete := Raises HTTPException\<rparr>)
             Map.empty (member_message 1 2 ''spam'') ''spam'') = Some HTTPException
   \<and> trace (handle_word_filter (all_return\<lparr>message_delete := Raises HTTPException\<rparr>)
             Map.empty (member_message 1 2 ''spam'') ''spam'') = [MessageDelete]
   \<and> raised (on_message (config_of [''spam''] 3 10)
             (all_return\<lparr>message_delete := Raises HTTPException\<rparr>)
             Map.empty (member_message 1 2 ''spam'') 0) = Some HTTPException"
  by (simp add: handle_word_filter_def on_message_def non_exempt_def example_defs
      config_get_def eval_lower sublist_Cons_right)

text \<open>
  Claim C7, amended. When the word-filter action is handled, a permission failure
  (\<^verbatim>\<open>discord.Forbidden\<close>) of the message delete is caught and logged and the handler
  stops there; after any failed delete no notice is posted; when the delete succeeds, the
  notice addressed to the author is posted and, when posting succeeds, its removal after 5
  seconds is scheduled and the handler returns normally. What reaches the caller is a
  delete failure other than \<^verbatim>\<open>discord.Forbidden\<close>, or any failure of posting the notice.
\<close>

theorem word_filter_failure_handling:
  "(message_delete env = Raises Forbidden \<longrightarrow>
      handle_word_filter env trk message w =
        \<lparr>tracker = trk,
         trace = [MessageDelete, LogWarning ''Missing permissions to delete message''],
         action = WordFilterAction w, raised = None\<rparr>)
   \<and> (message_delete env \<noteq> Returns \<longrightarrow>
        (\<forall>t u. ChannelSend t u \<notin> set (trace (handle_word_filter env trk message w))))
   \<and> (message_delete env = Returns \<longrightarrow>
        (\<exists>rest. trace (handle_word_filter env trk message w) =
           MessageDelete # ChannelSend ''Message Removed'' (author_id (author message)) # rest))
   \<and> (message_delete env = Returns \<and> channel_send env = Returns \<longrightarrow>
        handle_word_filter env trk message w =
          \<lparr>tracker = trk,
           trace = [MessageDelete,
                    ChannelSend ''Message Removed'' (author_id (author message)),
                    DeleteAfter 5],
           action = WordFilterAction w, raised = None\<rparr>)
   \<and> raised (handle_word_filter env trk message w) =
        (case message_delete env of
           Raises e \<Rightarrow> if e = Forbidden then None else Some e
         | Returns \<Rightarrow> raises (channel_send env))"
proof (intro conjI)
  show "message_delete env = Raises Forbidden \<longrightarrow>
      handle_word_filter env trk message w =
        \<lparr>tracker = trk,
         trace = [MessageDelete, LogWarning ''Missing permissions to delete message''],
         action = WordFilterAction w, raised = None\<rparr>"
    by (simp add: handle_word_filter_def)
  show "message_delete env \<noteq> Returns \<longrightarrow>
        (\<forall>t u. ChannelSend t u \<notin> set (trace (handle_word_filter env trk message w)))"
    by (cases "message_delete env") (simp_all add: handle_word_filter_def)
  show "message_delete env = Returns \<longrightarrow>
        (\<exists>rest. trace (handle_word_filter env trk message w) =
           MessageDelete # ChannelSend ''Message Removed'' (author_id (author message)) # rest)"
    by (cases "channel_send env") (simp_all add: handle_word_filter_def)
  show "message_delete env = Returns \<and> channel_send env = Returns \<longrightarrow>
        handle_word_filter env trk message w =
          \<lparr>tracker = trk,
           trace = [MessageDelete,
                    ChannelSend ''Message Removed'' (author_id (author message)),
                    DeleteAfter 5],
           action = WordFilterAction w, raised = None\<rparr>"
    by (simp add: handle_word_filter_def)
  show "raised (handle_word_filter env trk message w) =
        (case message_delete env of
           Raises e \<Rightarrow> if e = Forbidden then None else Some e
         | Returns \<Rightarrow> raises (channel_send env))"
    by (cases "message_delete env"; cases "channel_send env")
       (simp_all add: handle_word_filter_def)
qed

theorem word_filter_failure_handling_witness:
  "message_delete (all_return\<lparr>message_delete := Raises Forbidden\<rparr>) = Raises Forbidden
   \<and> message_delete (all_return\<lparr>message_delete := Raises Forbidden\<rparr>) \<noteq> Returns
   \<and> handle_word_filter (all_return\<lparr>message_delete := Raises Forbidden\<rparr>) Map.empty
        (member_message 1 2 ''spam'') ''spam'' =
        \<lparr>tracker = Map.empty,
         trace = [MessageDelete, LogWarning ''Missing permissions to delete message''],
         action = WordFilterAction ''spam'', raised = None\<rparr>
   \<and> ChannelSend ''Message Removed'' 2 \<notin>
        set (trace (handle_word_filter (all_return\<lparr>message_delete := Raises Forbidden\<rparr>)
               Map.empty (member_message 1 2 ''spam'') ''spam''))"
  using word_filter_failure_handling
    [of "all_return\<lparr>message_delete := Raises Forbidden\<rparr>" Map.empty
        "member_message 1 2 ''spam''" "''spam''"]
  by (simp add: all_return_def)

subsection \<open>Failures in the spam handler\<close>

lemma handle_spam_detection_trigger:
  assumes "guild message = Some gid" and "guild_permissions (author message) = Some p"
    and "config_get (spam_threshold cfg) 5 \<le>
           identical_count
             (add (prune (tracker_getitem trk (gid, author_id (author message)))
                     (now - of_int (config_get (spam_interval cfg) 10)))
                  (content message) now)
             (content message)"
  shows "handle_spam_detection cfg env trk message now =
     \<lparr>tracker =
        (if spam_effects_complete env then trk((gid, author_id (author message)) := None)
         else trk((gid, author_id (author message)) \<mapsto>
                add (prune (tracker_getitem trk (gid, author_id (author message)))
                       (now - of_int (config_get (spam_interval cfg) 10)))
                    (content message) now)),
      trace =
        ChannelPurge (config_get (spam_threshold cfg) 5 + 5) (author_id (author message)) #
        (if uncaught (channel_purge env) \<noteq> None then []
         else MemberTimeout 5 #
           (if uncaught (member_timeout env) \<noteq> None then []
            else (if member_timeout env = Raises Forbidden
                  then [LogWarning ''Missing permissions to timeout''] else [])
                 @ ChannelSend ''Spam Detected'' (author_id (author message)) #
                   (if raises (channel_send env) \<noteq> None then [] else [DeleteAfter 5]))),
      action = SpamAction,
      raised =
        (if uncaught (channel_purge env) \<noteq> None then uncaught (channel_purge env)
         else if uncaught (member_timeout env) \<noteq> None then uncaught (member_timeout env)
         else raises (channel_send env))\<rparr>"
  using assms
  by (simp add: handle_spam_detection_def Let_def spam_effects_complete_def)

text \<open>
  Claim C8 says that every failure of a side effect of the spam action is logged, that
  none is raised to the caller and that none prevents the reset of the tracker. With
  threshold 1: a purge that raises \<^verbatim>\<open>discord.Forbidden\<close> is passed over by
  \<^verbatim>\<open>except discord.Forbidden: pass\<close> without any log call; a timeout that raises another
  \<^verbatim>\<open>discord.HTTPException\<close> is not logged, leaves the handler before the notice and keeps
  the member's record in the tracker; and a notice that cannot be sent is not logged
  either, raises to the caller, and keeps the record as well.
\<close>

theorem spam_side_effects_counterexample:
  "on_message (config_of [] 1 10) (all_return\<lparr>channel_purge := Raises Forbidden\<rparr>)
       Map.empty (member_message 1 2 ''hi'') 0
     = \<lparr>tracker = Map.empty,
        trace = [ChannelPurge 6 2, MemberTimeout 5, ChannelSend ''Spam Detected'' 2,
                 DeleteAfter 5],
        action = SpamAction, raised = None\<rparr>
   \<and> raised (on_message (config_of [] 1 10)
            (all_return\<lparr>member_timeout := Raises HTTPException\<rparr>)
            Map.empty (member_message 1 2 ''hi'') 0) = Some HTTPException
   \<and> trace (on_message (config_of [] 1 10)
            (all_return\<lparr>member_timeout := Raises HTTPException\<rparr>)
            Map.empty (member_message 1 2 ''hi'') 0)
       = [ChannelPurge 6 2, MemberTimeout 5]
   \<and> tracker (on_message (config_of [] 1 10)
            (all_return\<lparr>member_timeout := Raises HTTPException\<rparr>)
            Map.empty (member_message 1 2 ''hi'') 0) (1, 2)
       = Some \<lparr>messages = [(''hi'', 0)]\<rparr>
   \<and> raised (on_message (config_of [] 1 10)
            (all_return\<lparr>channel_send := Raises Forbidden\<rparr>)
            Map.empty (member_message 1 2 ''hi'') 0) = Some Forbidden
   \<and> trace (on_message (config_of [] 1 10)
            (all_return\<lparr>channel_send := Raises Forbidden\<rparr>)
            Map.empty (member_message 1 2 ''hi'') 0)
       = [ChannelPurge 6 2, MemberTimeout 5, ChannelSend ''Spam Detected'' 2]
   \<and> tracker (on_message (config_of [] 1 10)
            (all_return\<lparr>channel_send := Raises Forbidden\<rparr>)
            Map.empty (member_message 1 2 ''hi'') 0) (1, 2)
       = Some \<lparr>messages = [(''hi'', 0)]\<rparr>"
  by (simp add: eval_handlers)

text \<open>
  Claim C8, amended. Let the spam action fire, and let the bulk delete return or raise
  \<^verbatim>\<open>discord.Forbidden\<close>. Then the handler requests first the bulk delete with limit
  threshold + 5 restricted to the author, and next the timeout of 5 minutes, whether or not
  the bulk delete was forbidden; a forbidden bulk delete leaves no log entry.

  If the timeout raises an exception other than \<^verbatim>\<open>discord.Forbidden\<close>, nothing more is
  requested or logged, that exception is raised to the caller and the tracker entry stays,
  with the new message in it.

  Otherwise a forbidden timeout is logged, and the notice is requested next in either
  case. When the notice is sent, its removal after 5 seconds is scheduled, nothing is
  raised and the tracker entry of the author is deleted. When sending the notice fails,
  nothing is logged or scheduled, the exception is raised to the caller and the tracker
  entry stays.

  Nothing is stated about a bulk delete that raises another exception than
  \<^verbatim>\<open>discord.Forbidden\<close>.
\<close>

theorem spam_side_effects:
  assumes "guild message = Some gid" and "guild_permissions (author message) = Some p"
    and "action (handle_spam_detection cfg env trk message now) = SpamAction"
    and "channel_purge env = Returns \<or> channel_purge env = Raises Forbidden"
  shows "handle_spam_detection cfg env trk message now =
     (case uncaught (member_timeout env) of
        Some e \<Rightarrow>
          \<lparr>tracker = trk((gid, author_id (author message)) \<mapsto>
                add (prune (tracker_getitem trk (gid, author_id (author message)))
                       (now - of_int (config_get (spam_interval cfg) 10)))
                    (content message) now),
           trace =
             [ChannelPurge (config_get (spam_threshold cfg) 5 + 5) (author_id (author message)),
              MemberTimeout 5],
           action = SpamAction, raised = Some e\<rparr>
      | None \<Rightarrow>
          \<lparr>tracker =
             (if channel_send env = Returns
              then trk((gid, author_id (author message)) := None)
              else trk((gid, author_id (author message)) \<mapsto>
                     add (prune (tracker_getitem trk (gid, author_id (author message)))
                            (now - of_int (config_get (spam_interval cfg) 10)))
                         (content message) now)),
           trace =
             [ChannelPurge (config_get (spam_threshold cfg) 5 + 5) (author_id (author message)),
              MemberTimeout 5]
             @ (if member_timeout env = Raises Forbidden
                then [LogWarning ''Missing permissions to timeout''] else [])
             @ [ChannelSend ''Spam Detected'' (author_id (author message))]
             @ (if channel_send env = Returns then [DeleteAfter 5] else []),
           action = SpamAction,
           raised = raises (channel_send env)\<rparr>)"
proof -
  have ge: "config_get (spam_threshold cfg) 5 \<le>
           identical_count
             (add (prune (tracker_getitem trk (gid, author_id (author message)))
                     (now - of_int (config_get (spam_interval cfg) 10)))
                  (content message) now)
             (content message)"
    using assms(3) handle_spam_detection_record [OF assms(1,2), of cfg env trk now]
    by (simp split: if_splits)
  note eq = handle_spam_detection_trigger [OF assms(1,2) ge, of env]
  from assms(4) have up: "uncaught (channel_purge env) = None" by auto
  have rs: "raises (channel_send env) = None \<longleftrightarrow> channel_send env = Returns"
    by (cases "channel_send env") simp_all
  show ?thesis
  proof (cases "uncaught (member_timeout env)")
    case None
    then have c: "spam_effects_complete env \<longleftrightarrow> channel_send env = Returns"
      by (simp add: spam_effects_complete_def up rs)
    show ?thesis
      unfolding eq by (simp add: up None rs c)
  next
    case (Some e)
    then have c: "\<not> spam_effects_complete env"
      by (simp add: spam_effects_complete_def)
    show ?thesis
      unfolding eq by (simp add: up Some c)
  qed
qed

theorem spam_side_effects_witness:
  "handle_spam_detection (config_of [] 1 10)
       \<lparr>message_delete = Returns, channel_purge = Raises Forbidden,
        member_timeout = Raises Forbidden, channel_send = Returns\<rparr>
       Map.empty (member_message 1 2 ''hi'') 0
     = \<lparr>tracker = Map.empty,
        trace = [ChannelPurge 6 2, MemberTimeout 5,
                 LogWarning ''Missing permissions to timeout'',
                 ChannelSend ''Spam Detected'' 2, DeleteAfter 5],
        action = SpamAction, raised = None\<rparr>"
proof -
  let ?env = "\<lparr>message_delete = Returns, channel_purge = Raises Forbidden,
        member_timeout = Raises Forbidden, channel_send = Returns\<rparr>"
  let ?m = "member_message 1 2 ''hi''"
  let ?cfg = "config_of [] 1 10"
  have g: "guild ?m = Some 1" by (simp add: member_message_def)
  have p: "guild_permissions (author ?m) = Some no_permissions"
    by (simp add: member_message_def)
  have a: "action (handle_spam_detection ?cfg ?env Map.empty ?m 0) = SpamAction"
    by (simp add: eval_handlers)
  have cp: "channel_purge ?env = Returns \<or> channel_purge ?env = Raises Forbidden" by simp
  have t: "member_timeout ?env = Raises Forbidden" by simp
  have cs: "channel_send ?env = Returns" by simp
  have aid: "author_id (author ?m) = 2" by (simp add: member_message_def)
  have n: "config_get (spam_threshold ?cfg) 5 + 5 = 6"
    by (simp add: config_get_def config_of_def)
  have u: "Map.empty((1::int, 2::int) := None) = (Map.empty :: tracker)" by simp
  show ?thesis
    unfolding spam_side_effects [OF g p a cp] t cs aid n
    by (simp add: u)
qed

subsection \<open>The tracker invariant\<close>

lemma non_exempt_fields:
  "\<not> exempt message \<Longrightarrow> guild_permissions (author message) \<noteq> None \<Longrightarrow>
     \<exists>gid p. guild message = Some gid \<and> guild_permissions (author message) = Some p"
  by (auto simp: exempt_def)

lemma identical_count_init [simp]: "identical_count MessageRecord_init c = 0"
  by (simp add: identical_count_def MessageRecord_init_def)

lemma handle_spam_detection_preserves_below:
  assumes g: "guild message = Some gid" and p: "guild_permissions (author message) = Some p"
    and inv: "\<forall>k r c. trk k = Some r \<longrightarrow> identical_count r c < config_get (spam_threshold cfg) 5"
    and ok: "action (handle_spam_detection cfg env trk message now) = SpamAction \<longrightarrow>
             raised (handle_spam_detection cfg env trk message now) = None"
  shows "\<forall>k r c. tracker (handle_spam_detection cfg env trk message now) k = Some r \<longrightarrow>
           identical_count r c < config_get (spam_threshold cfg) 5"
proof -
  let ?N = "config_get (spam_threshold cfg) 5"
  let ?key = "(gid, author_id (author message))"
  let ?r0 = "tracker_getitem trk ?key"
  let ?r1 = "add (prune ?r0 (now - of_int (config_get (spam_interval cfg) 10)))
               (content message) now"
  let ?out = "handle_spam_detection cfg env trk message now"
  show ?thesis
  proof (cases "?N \<le> identical_count ?r1 (content message)")
    case True
    note eq = handle_spam_detection_trigger [OF g p True, of env]
    have "action ?out = SpamAction" by (simp add: eq)
    with ok have "raised ?out = None" by simp
    then have "spam_effects_complete env"
      by (simp add: eq spam_effects_complete_def split: if_splits)
    then have "tracker ?out = trk(?key := None)" by (simp add: eq)
    with inv show ?thesis by (auto split: if_splits)
  next
    case False
    then have lt: "identical_count ?r1 (content message) < ?N" by simp
    have t: "tracker ?out = trk(?key \<mapsto> ?r1)"
      by (simp add: handle_spam_detection_no_trigger [OF g p lt])
    have pos: "0 < ?N"
      using lt identical_count_nonneg [of "prune ?r0 (now - of_int (config_get (spam_interval cfg) 10))" "content message"]
      by (simp add: identical_count_add)
    have r0: "identical_count ?r0 c < ?N" for c
    proof (cases "trk ?key")
      case None
      then show ?thesis using pos by (simp add: tracker_getitem_def)
    next
      case (Some r)
      with inv show ?thesis by (simp add: tracker_getitem_def)
    qed
    have r1: "identical_count ?r1 c < ?N" for c
    proof (cases "c = content message")
      case True
      with lt show ?thesis by simp
    next
      case False
      then have "identical_count ?r1 c
                   = identical_count (prune ?r0 (now - of_int (config_get (spam_interval cfg) 10))) c"
        by (simp add: identical_count_add)
      also have "\<dots> \<le> identical_count ?r0 c" by (rule identical_count_prune_le)
      finally show ?thesis using r0 [of c] by simp
    qed
    show ?thesis
    proof (intro allI impI)
      fix k r c
      assume h: "tracker ?out k = Some r"
      show "identical_count r c < ?N"
      proof (cases "k = ?key")
        case True
        with h t have "r = ?r1" by simp
        with r1 show ?thesis by simp
      next
        case False
        with h t have "trk k = Some r" by simp
        with inv show ?thesis by blast
      qed
    qed
  qed
qed

lemma on_message_preserves_below:
  assumes inv: "\<forall>k r c. trk k = Some r \<longrightarrow> identical_count r c < config_get (spam_threshold cfg) 5"
    and ok: "action (on_message cfg env trk message now) = SpamAction \<longrightarrow>
             raised (on_message cfg env trk message now) = None"
  shows "\<forall>k r c. tracker (on_message cfg env trk message now) k = Some r \<longrightarrow>
           identical_count r c < config_get (spam_threshold cfg) 5"
proof (cases "exempt message \<or> guild_permissions (author message) = None")
  case True
  then have "tracker (on_message cfg env trk message now) = trk"
    by (auto simp: on_message_cases)
  with inv show ?thesis by simp
next
  case False
  then obtain gid p where
    gp: "guild message = Some gid" "guild_permissions (author message) = Some p"
    using non_exempt_fields by blast
  show ?thesis
  proof (cases "word_filter_loop (config_get (word_filter cfg) []) (lower (content message))")
    case (Some w)
    with False gp have "tracker (on_message cfg env trk message now) = trk"
      by (simp add: on_message_cases)
    with inv show ?thesis by simp
  next
    case None
    with False gp have eq: "on_message cfg env trk message now
                       = handle_spam_detection cfg env trk message now"
      by (simp add: on_message_cases)
    from handle_spam_detection_preserves_below [OF gp inv] ok
    show ?thesis unfolding eq by blast
  qed
qed

lemma run_preserves_below:
  assumes "\<forall>k r c. trk k = Some r \<longrightarrow> identical_count r c < config_get (spam_threshold cfg) 5"
    and "\<forall>out \<in> set (run cfg trk evs). action out = SpamAction \<longrightarrow> raised out = None"
  shows "\<forall>out \<in> set (run cfg trk evs). \<forall>k r c. tracker out k = Some r \<longrightarrow>
           identical_count r c < config_get (spam_threshold cfg) 5"
  using assms
proof (induction evs arbitrary: trk)
  case Nil
  then show ?case by simp
next
  case (Cons ev evs)
  obtain env message now where ev: "ev = (env, message, now)" by (cases ev) auto
  let ?out = "on_message cfg env trk message now"
  have r: "run cfg trk (ev # evs) = ?out # run cfg (tracker ?out) evs"
    by (simp add: ev Let_def)
  from Cons.prems(2) have ok1: "action ?out = SpamAction \<longrightarrow> raised ?out = None"
    and ok2: "\<forall>out \<in> set (run cfg (tracker ?out) evs). action out = SpamAction \<longrightarrow> raised out = None"
    unfolding r by simp_all
  have inv1: "\<forall>k r c. tracker ?out k = Some r \<longrightarrow>
           identical_count r c < config_get (spam_threshold cfg) 5"
    by (rule on_message_preserves_below [OF Cons.prems(1) ok1])
  from Cons.IH [OF inv1 ok2] inv1 show ?case unfolding r by simp
qed

text \<open>
  Claim C9 says that a count reaching the threshold always deletes the entry within the
  same handling step, so that no stored record ever holds as many copies as the threshold.
  With threshold 1, a member's message triggers the spam action; the notice cannot be
  sent, the exception leaves the handler before \<^verbatim>\<open>del self._spam_tracker[key]\<close>, and the
  record with one copy stays. It is still there after the next event, a moderator's
  message, has been handled and has returned normally.
\<close>

theorem tracker_threshold_counterexample:
  "map raised (run (config_of [] 1 10) Map.empty
       [(all_return\<lparr>channel_send := Raises Forbidden\<rparr>, member_message 1 2 ''hi'', 0),
        (all_return, moderator_message 1 3 ''ok'', 1)])
     = [Some Forbidden, None]
   \<and> final_tracker Map.empty (run (config_of [] 1 10) Map.empty
       [(all_return\<lparr>channel_send := Raises Forbidden\<rparr>, member_message 1 2 ''hi'', 0),
        (all_return, moderator_message 1 3 ''ok'', 1)]) (1, 2)
     = Some \<lparr>messages = [(''hi'', 0)]\<rparr>
   \<and> \<not> identical_count \<lparr>messages = [(''hi'', 0)]\<rparr> ''hi''
         < config_get (spam_threshold (config_of [] 1 10)) 5"
  by (simp add: eval_handlers final_tracker_def)

text \<open>
  Claim C9, amended. Start from the empty tracker and let the listener handle any sequence
  of message events in which no spam action is cut short by an exception (each one reaches
  the deletion of its entry). Then after every event of the run, every entry present in
  the tracker holds fewer than \<^verbatim>\<open>spam_threshold\<close> copies of any content.
\<close>

theorem tracker_below_threshold:
  assumes "\<forall>out \<in> set (run cfg Map.empty evs). action out = SpamAction \<longrightarrow> raised out = None"
  shows "\<forall>out \<in> set (run cfg Map.empty evs). \<forall>k r c. tracker out k = Some r \<longrightarrow>
           identical_count r c < config_get (spam_threshold cfg) 5"
proof -
  have "\<forall>k r c. (Map.empty :: tracker) k = Some r \<longrightarrow>
          identical_count r c < config_get (spam_threshold cfg) 5" by simp
  from run_preserves_below [OF this assms] show ?thesis .
qed

theorem tracker_below_threshold_witness:
  "map action (run (config_of [] 2 10) Map.empty
       [(all_return, member_message 1 2 ''hi'', 0),
        (all_return, member_message 1 2 ''hi'', 1),
        (all_return, member_message 1 2 ''hi'', 2)])
     = [NoAction, SpamAction, NoAction]
   \<and> map raised (run (config_of [] 2 10) Map.empty
       [(all_return, member_message 1 2 ''hi'', 0),
        (all_return, member_message 1 2 ''hi'', 1),
        (all_return, member_message 1 2 ''hi'', 2)])
     = [None, None, None]
   \<and> tracker (last (run (config_of [] 2 10) Map.empty
       [(all_return, member_message 1 2 ''hi'', 0),
        (all_return, member_message 1 2 ''hi'', 1),
        (all_return, member_message 1 2 ''hi'', 2)])) (1, 2)
     = Some \<lparr>messages = [(''hi'', 2)]\<rparr>
   \<and> identical_count \<lparr>messages = [(''hi'', 2)]\<rparr> ''hi''
        < config_get (spam_threshold (config_of [] 2 10)) 5"
proof -
  let ?R = "run (config_of [] 2 10) Map.empty
       [(all_return, member_message 1 2 ''hi'', 0),
        (all_return, member_message 1 2 ''hi'', 1),
        (all_return, member_message 1 2 ''hi'', 2)]"
  have ma: "map action ?R = [NoAction, SpamAction, NoAction]"
    by (simp add: eval_handlers)
  have mr: "map raised ?R = [None, None, None]"
    by (simp add: eval_handlers)
  have l: "tracker (last ?R) (1, 2) = Some \<lparr>messages = [(''hi'', 2)]\<rparr>"
    by (simp add: eval_handlers)
  have "\<forall>out \<in> set ?R. raised out \<in> set (map raised ?R)" by simp
  then have h: "\<forall>out \<in> set ?R. action out = SpamAction \<longrightarrow> raised out = None"
    unfolding mr by simp
  from mr have "?R \<noteq> []" by auto
  then have "last ?R \<in> set ?R" by (rule last_in_set)
  with tracker_below_threshold [OF h] l
  have c: "identical_count \<lparr>messages = [(''hi'', 2)]\<rparr> ''hi''
        < config_get (spam_threshold (config_of [] 2 10)) 5"
    by blast
  from ma mr l c show ?thesis by (intro conjI)
qed

subsection \<open>Bursts of identical messages\<close>

lemma final_tracker_Cons:
  "final_tracker trk (out # outs) = final_tracker (tracker out) outs"
  by (simp add: final_tracker_def)

lemma run_Cons:
  "run cfg trk ((env, message, now) # evs) =
     on_message cfg env trk message now
     # run cfg (tracker (on_message cfg env trk message now)) evs"
  by (simp add: Let_def)

lemma run_append:
  "run cfg trk (xs @ ys) =
     run cfg trk xs @ run cfg (final_tracker trk (run cfg trk xs)) ys"
proof (induction xs arbitrary: trk)
  case Nil
  then show ?case by (simp add: final_tracker_def)
next
  case (Cons ev xs)
  obtain env message now where ev: "ev = (env, message, now)" by (cases ev) auto
  show ?case
    unfolding ev append_Cons run_Cons final_tracker_Cons
    by (simp add: Cons.IH)
qed

lemma sends_Nil [simp]: "sends m [] = []"
  by (simp add: sends_def)

lemma sends_Cons [simp]: "sends m ((env, now) # ens) = (env, m, now) # sends m ens"
  by (simp add: sends_def)

lemma sends_append [simp]: "sends m (xs @ ys) = sends m xs @ sends m ys"
  by (simp add: sends_def)

lemma entries_add_prune:
  assumes "filter (\<lambda>e. fst e = c) (messages r) = map (Pair c) ts0"
    and "\<forall>a \<in> set ts0. cutoff \<le> a"
  shows "filter (\<lambda>e. fst e = c) (messages (add (prune r cutoff) c now))
           = map (Pair c) (ts0 @ [now])"
proof -
  have "filter (\<lambda>e. fst e = c) (filter (\<lambda>e. cutoff \<le> snd e) (messages r))
          = filter (\<lambda>e. cutoff \<le> snd e) (filter (\<lambda>e. fst e = c) (messages r))"
    by (simp add: conj_commute)
  also have "\<dots> = filter (\<lambda>e. cutoff \<le> snd e) (map (Pair c) ts0)"
    by (simp only: assms(1))
  also have "\<dots> = map (Pair c) ts0"
    using assms(2) by (simp add: filter_map o_def)
  finally show ?thesis by simp
qed

lemma on_message_spam_check:
  assumes "non_exempt m"
    and "word_filter_loop (config_get (word_filter cfg) []) (lower (content m)) = None"
  shows "on_message cfg env trk m now = handle_spam_detection cfg env trk m now"
  using assms by (simp add: on_message_non_exempt)

lemma non_exempt_member:
  "non_exempt m \<Longrightarrow> \<exists>gid p. guild m = Some gid \<and> guild_permissions (author m) = Some p"
  by (auto simp: non_exempt_def split: option.splits)

lemma burst_prefix:
  assumes ne: "non_exempt m"
    and nf: "word_filter_loop (config_get (word_filter cfg) []) (lower (content m)) = None"
    and g: "guild m = Some gid"
  shows "filter (\<lambda>e. fst e = content m)
           (messages (tracker_getitem trk (gid, author_id (author m))))
           = map (Pair (content m)) ts0 \<Longrightarrow>
         within_window (config_get (spam_interval cfg) 10) (ts0 @ map snd ens) \<Longrightarrow>
         int (length ts0 + length ens) < config_get (spam_threshold cfg) 5 \<Longrightarrow>
         map action (run cfg trk (sends m ens)) = replicate (length ens) NoAction \<and>
         filter (\<lambda>e. fst e = content m)
           (messages (tracker_getitem (final_tracker trk (run cfg trk (sends m ens)))
                        (gid, author_id (author m))))
           = map (Pair (content m)) (ts0 @ map snd ens)"
proof (induction ens arbitrary: trk ts0)
  case Nil
  then show ?case by (simp add: final_tracker_def)
next
  case (Cons en ens)
  obtain env t where en: "en = (env, t)" by (cases en) auto
  from ne g obtain p where p: "guild_permissions (author m) = Some p"
    using non_exempt_member by fastforce
  let ?key = "(gid, author_id (author m))"
  let ?W = "config_get (spam_interval cfg) 10"
  let ?N = "config_get (spam_threshold cfg) 5"
  let ?r0 = "tracker_getitem trk ?key"
  let ?r1 = "add (prune ?r0 (t - of_int ?W)) (content m) t"
  let ?out = "on_message cfg env trk m t"
  have old: "\<forall>a \<in> set ts0. t - of_int ?W \<le> a"
  proof
    fix a assume "a \<in> set ts0"
    with Cons.prems(2) have "t - a \<le> of_int ?W"
      by (simp add: within_window_def en)
    then show "t - of_int ?W \<le> a" by simp
  qed
  have cs1: "filter (\<lambda>e. fst e = content m) (messages ?r1) = map (Pair (content m)) (ts0 @ [t])"
    by (rule entries_add_prune [OF Cons.prems(1) old])
  have "identical_count ?r1 (content m) = int (length ts0) + 1"
    by (simp only: identical_count_length cs1) simp
  with Cons.prems(3) have lt: "identical_count ?r1 (content m) < ?N" by simp
  have out: "?out = \<lparr>tracker = trk(?key \<mapsto> ?r1), trace = [], action = NoAction, raised = None\<rparr>"
    unfolding on_message_spam_check [OF ne nf]
    by (rule handle_spam_detection_no_trigger [OF g p lt])
  have get: "tracker_getitem (tracker ?out) ?key = ?r1"
    by (simp add: out tracker_getitem_def)
  have cs': "filter (\<lambda>e. fst e = content m) (messages (tracker_getitem (tracker ?out) ?key))
               = map (Pair (content m)) (ts0 @ [t])"
    by (simp only: get cs1)
  have w': "within_window ?W ((ts0 @ [t]) @ map snd ens)"
    using Cons.prems(2) by (simp add: en)
  have n': "int (length (ts0 @ [t]) + length ens) < ?N"
    using Cons.prems(3) by simp
  note ih = Cons.IH [OF cs' w' n']
  have r: "run cfg trk (sends m (en # ens)) = ?out # run cfg (tracker ?out) (sends m ens)"
    by (simp only: en sends_Cons run_Cons)
  have a: "action ?out = NoAction" by (simp add: out)
  show ?case
    unfolding r final_tracker_Cons
    using ih a by (simp add: en)
qed

lemma burst_trigger:
  assumes ne: "non_exempt m"
    and nf: "word_filter_loop (config_get (word_filter cfg) []) (lower (content m)) = None"
    and g: "guild m = Some gid"
    and cs: "filter (\<lambda>e. fst e = content m)
           (messages (tracker_getitem trk (gid, author_id (author m))))
           = map (Pair (content m)) ts0"
    and w: "within_window (config_get (spam_interval cfg) 10) (ts0 @ [t])"
    and n: "config_get (spam_threshold cfg) 5 \<le> int (length ts0) + 1"
  shows "action (on_message cfg env trk m t) = SpamAction \<and>
         (spam_effects_complete env \<longrightarrow>
            tracker (on_message cfg env trk m t) = trk((gid, author_id (author m)) := None))"
proof -
  from ne g obtain p where p: "guild_permissions (author m) = Some p"
    using non_exempt_member by fastforce
  let ?key = "(gid, author_id (author m))"
  let ?W = "config_get (spam_interval cfg) 10"
  let ?r0 = "tracker_getitem trk ?key"
  let ?r1 = "add (prune ?r0 (t - of_int ?W)) (content m) t"
  have old: "\<forall>a \<in> set ts0. t - of_int ?W \<le> a"
  proof
    fix a assume "a \<in> set ts0"
    with w have "t - a \<le> of_int ?W"
      by (simp add: within_window_def)
    then show "t - of_int ?W \<le> a" by simp
  qed
  have cs1: "filter (\<lambda>e. fst e = content m) (messages ?r1) = map (Pair (content m)) (ts0 @ [t])"
    by (rule entries_add_prune [OF cs old])
  have "identical_count ?r1 (content m) = int (length ts0) + 1"
    by (simp only: identical_count_length cs1) simp
  with n have ge: "config_get (spam_threshold cfg) 5 \<le> identical_count ?r1 (content m)"
    by simp
  show ?thesis
    unfolding on_message_spam_check [OF ne nf]
    by (simp add: handle_spam_detection_trigger [OF g p ge])
qed

lemma burst_round:
  assumes ne: "non_exempt m"
    and nf: "word_filter_loop (config_get (word_filter cfg) []) (lower (content m)) = None"
    and g: "guild m = Some gid"
    and zero: "identical_count (tracker_getitem trk (gid, author_id (author m))) (content m) = 0"
    and b: "burst cfg ens"
  shows "map action (run cfg trk (sends m ens))
           = replicate (length ens - 1) NoAction @ [SpamAction] \<and>
         (spam_effects_complete (fst (last ens)) \<longrightarrow>
            final_tracker trk (run cfg trk (sends m ens)) (gid, author_id (author m)) = None)"
proof -
  let ?key = "(gid, author_id (author m))"
  let ?W = "config_get (spam_interval cfg) 10"
  let ?N = "config_get (spam_threshold cfg) 5"
  let ?pre = "butlast ens"
  from b have nonempty: "ens \<noteq> []" and len: "int (length ens) = ?N"
    and win: "within_window ?W (map snd ens)"
    by (simp_all add: burst_def)
  obtain env t where l: "last ens = (env, t)" by (cases "last ens") auto
  from nonempty l have split: "ens = ?pre @ [(env, t)]"
    by (metis append_butlast_last_id)
  have ms: "map snd ens = map snd ?pre @ [t]"
    by (subst split) simp
  from zero have cs0: "filter (\<lambda>e. fst e = content m) (messages (tracker_getitem trk ?key))
                         = map (Pair (content m)) []"
    by (simp add: identical_count_length)
  have w0: "within_window ?W ([] @ map snd ?pre)"
    using win unfolding ms by (simp add: within_window_def)
  have n0: "int (length ([]::real list) + length ?pre) < ?N"
    using len nonempty by (simp add: length_greater_0_conv [symmetric] del: length_greater_0_conv)
  note pre = burst_prefix [OF ne nf g cs0 w0 n0]
  let ?trk1 = "final_tracker trk (run cfg trk (sends m ?pre))"
  from pre have cs1: "filter (\<lambda>e. fst e = content m) (messages (tracker_getitem ?trk1 ?key))
                        = map (Pair (content m)) (map snd ?pre)"
    by simp
  have w1: "within_window ?W (map snd ?pre @ [t])"
    using win unfolding ms .
  have n1: "?N \<le> int (length (map snd ?pre)) + 1"
    using len nonempty by (simp add: length_greater_0_conv [symmetric] del: length_greater_0_conv)
  note trig = burst_trigger [OF ne nf g cs1 w1 n1, of env]
  have r: "run cfg trk (sends m ens)
             = run cfg trk (sends m ?pre) @ [on_message cfg env ?trk1 m t]"
    by (subst split) (simp only: sends_append sends_Cons sends_Nil run_append run_Cons run.simps)
  have acts: "map action (run cfg trk (sends m ens))
                = replicate (length ens - 1) NoAction @ [SpamAction]"
    unfolding r using pre trig by simp
  have fin: "spam_effects_complete (fst (last ens)) \<longrightarrow>
               final_tracker trk (run cfg trk (sends m ens)) ?key = None"
  proof
    assume "spam_effects_complete (fst (last ens))"
    with l have "spam_effects_complete env" by simp
    with trig have "tracker (on_message cfg env ?trk1 m t) = ?trk1(?key := None)" by simp
    then show "final_tracker trk (run cfg trk (sends m ens)) ?key = None"
      unfolding r by (simp add: final_tracker_def)
  qed
  from acts fin show ?thesis by simp
qed

text \<open>
  Claim C1 says that after the burst the tracker entry is absent and that the next
  identical message does not retrigger. With threshold 2 and a window of 10 seconds, a
  member sends \<open>hi\<close> at 0 and 1: the second send triggers the spam action, but its notice
  cannot be sent, so the exception leaves the handler before the entry is deleted. The
  entry still holds both copies, and the next \<open>hi\<close>, at 2, triggers again at once.
\<close>

theorem threshold_reset_counterexample:
  "map action (run (config_of [] 2 10) Map.empty
       [(all_return, member_message 1 2 ''hi'', 0),
        (all_return\<lparr>channel_send := Raises Forbidden\<rparr>, member_message 1 2 ''hi'', 1),
        (all_return, member_message 1 2 ''hi'', 2)])
     = [NoAction, SpamAction, SpamAction]
   \<and> final_tracker Map.empty (run (config_of [] 2 10) Map.empty
       [(all_return, member_message 1 2 ''hi'', 0),
        (all_return\<lparr>channel_send := Raises Forbidden\<rparr>, member_message 1 2 ''hi'', 1)])
       (1, 2)
     = Some \<lparr>messages = [(''hi'', 0), (''hi'', 1)]\<rparr>"
  by (simp add: eval_handlers final_tracker_def)

text \<open>
  Claim C1, amended. Let a non-exempt member of one guild, whose record holds no copy of
  the content yet and whose content matches no filter word, send the same content as
  often as the threshold \<open>N\<close> says, any two sends at most \<open>W\<close> seconds apart. Then the
  first \<open>N - 1\<close> sends trigger nothing and the \<open>N\<close>-th triggers the one spam action.
  Provided the side effects of that action complete (bulk delete and timeout return or
  raise \<^verbatim>\<open>discord.Forbidden\<close>, the notice is sent), the tracker entry of the member is
  absent right after it, and a second such burst sent after the reset again triggers
  nothing on its first \<open>N - 1\<close> sends and a spam action on its \<open>N\<close>-th, whose completion
  resets the entry again.
\<close>

theorem threshold_trigger_and_reset:
  assumes "non_exempt message"
    and "word_filter_loop (config_get (word_filter cfg) []) (lower (content message)) = None"
    and "key_of message = Some key"
    and "identical_count (tracker_getitem trk key) (content message) = 0"
    and "burst cfg ens1" and "burst cfg ens2"
  shows "map action (run cfg trk (sends message ens1))
           = replicate (nat (config_get (spam_threshold cfg) 5) - 1) NoAction @ [SpamAction]
       \<and> (spam_effects_complete (fst (last ens1)) \<longrightarrow>
            final_tracker trk (run cfg trk (sends message ens1)) key = None
            \<and> map action (run cfg trk (sends message (ens1 @ ens2)))
                = replicate (nat (config_get (spam_threshold cfg) 5) - 1) NoAction
                  @ [SpamAction]
                  @ replicate (nat (config_get (spam_threshold cfg) 5) - 1) NoAction
                  @ [SpamAction]
            \<and> (spam_effects_complete (fst (last ens2)) \<longrightarrow>
                 final_tracker trk (run cfg trk (sends message (ens1 @ ens2))) key = None))"
proof -
  let ?N = "config_get (spam_threshold cfg) 5"
  from assms(3) obtain gid where g: "guild message = Some gid"
    and key: "key = (gid, author_id (author message))"
    by (auto simp: key_of_def split: option.splits)
  from assms(5,6) have len: "length ens1 = nat ?N" "length ens2 = nat ?N"
    by (auto simp: burst_def)
  let ?trk1 = "final_tracker trk (run cfg trk (sends message ens1))"
  note r1 = burst_round [OF assms(1,2) g assms(4) [unfolded key] assms(5)]
  have a1: "map action (run cfg trk (sends message ens1))
              = replicate (nat ?N - 1) NoAction @ [SpamAction]"
    using r1 by (simp add: len)
  have rest: "spam_effects_complete (fst (last ens1)) \<longrightarrow>
            ?trk1 key = None
            \<and> map action (run cfg trk (sends message (ens1 @ ens2)))
                = replicate (nat ?N - 1) NoAction @ [SpamAction]
                  @ replicate (nat ?N - 1) NoAction @ [SpamAction]
            \<and> (spam_effects_complete (fst (last ens2)) \<longrightarrow>
                 final_tracker trk (run cfg trk (sends message (ens1 @ ens2))) key = None)"
  proof
    assume c1: "spam_effects_complete (fst (last ens1))"
    with r1 have none: "?trk1 (gid, author_id (author message)) = None" by simp
    then have zero: "identical_count (tracker_getitem ?trk1 (gid, author_id (author message)))
                     (content message) = 0"
      by (simp add: tracker_getitem_def)
    note r2 = burst_round [OF assms(1,2) g zero assms(6)]
    have app: "run cfg trk (sends message (ens1 @ ens2))
               = run cfg trk (sends message ens1) @ run cfg ?trk1 (sends message ens2)"
      by (simp only: sends_append run_append)
    have ne2: "run cfg ?trk1 (sends message ens2) \<noteq> []"
      using r2 by auto
    have fin: "final_tracker trk (run cfg trk (sends message (ens1 @ ens2)))
               = final_tracker ?trk1 (run cfg ?trk1 (sends message ens2))"
      unfolding app using ne2 by (simp add: final_tracker_def)
    have a2: "map action (run cfg ?trk1 (sends message ens2))
              = replicate (nat ?N - 1) NoAction @ [SpamAction]"
      using r2 by (simp add: len)
    have a12: "map action (run cfg trk (sends message (ens1 @ ens2)))
              = replicate (nat ?N - 1) NoAction @ [SpamAction]
                @ replicate (nat ?N - 1) NoAction @ [SpamAction]"
      unfolding app by (simp add: a1 a2)
    have f1: "?trk1 key = None" using none by (simp add: key)
    have f2: "spam_effects_complete (fst (last ens2)) \<longrightarrow>
                final_tracker trk (run cfg trk (sends message (ens1 @ ens2))) key = None"
      unfolding fin using r2 by (simp add: key)
    from f1 a12 f2 show "?trk1 key = None
            \<and> map action (run cfg trk (sends message (ens1 @ ens2)))
                = replicate (nat ?N - 1) NoAction @ [SpamAction]
                  @ replicate (nat ?N - 1) NoAction @ [SpamAction]
            \<and> (spam_effects_complete (fst (last ens2)) \<longrightarrow>
                 final_tracker trk (run cfg trk (sends message (ens1 @ ens2))) key = None)"
      by blast
  qed
  from a1 rest show ?thesis by blast
qed

theorem threshold_trigger_and_reset_witness:
  "non_exempt (member_message 1 2 ''hi'')
   \<and> burst (config_of [] 3 10) [(all_return, 0), (all_return, 2), (all_return, 4)]
   \<and> burst (config_of [] 3 10) [(all_return, 5), (all_return, 6), (all_return, 7)]
   \<and> spam_effects_complete all_return
   \<and> map action (run (config_of [] 3 10) Map.empty
         (sends (member_message 1 2 ''hi'') [(all_return, 0), (all_return, 2), (all_return, 4)]))
       = [NoAction, NoAction, SpamAction]
   \<and> final_tracker Map.empty (run (config_of [] 3 10) Map.empty
         (sends (member_message 1 2 ''hi'') [(all_return, 0), (all_return, 2), (all_return, 4)]))
         (1, 2) = None
   \<and> map action (run (config_of [] 3 10) Map.empty
         (sends (member_message 1 2 ''hi'')
            ([(all_return, 0), (all_return, 2), (all_return, 4)]
             @ [(all_return, 5), (all_return, 6), (all_return, 7)])))
       = [NoAction, NoAction, SpamAction, NoAction, NoAction, SpamAction]"
proof -
  let ?m = "member_message 1 2 ''hi''"
  let ?cfg = "config_of [] 3 10"
  have ne: "non_exempt ?m" by (simp add: non_exempt_def example_defs)
  have nf: "word_filter_loop (config_get (word_filter ?cfg) []) (lower (content ?m)) = None"
    by (simp add: config_get_def config_of_def)
  have k: "key_of ?m = Some (1, 2)" by (simp add: key_of_def member_message_def)
  have z: "identical_count (tracker_getitem Map.empty (1, 2)) (content ?m) = 0"
    by (simp add: tracker_getitem_def identical_count_def MessageRecord_init_def)
  have b1: "burst ?cfg [(all_return, 0), (all_return, 2), (all_return, 4)]"
    by (simp add: burst_def within_window_def config_get_def config_of_def)
  have b2: "burst ?cfg [(all_return, 5), (all_return, 6), (all_return, 7)]"
    by (simp add: burst_def within_window_def config_get_def config_of_def)
  have c: "spam_effects_complete all_return"
    by (simp add: spam_effects_complete_def all_return_def)
  have n: "nat (config_get (spam_threshold ?cfg) 5) - 1 = Suc (Suc 0)"
    by (simp add: config_get_def config_of_def)
  from threshold_trigger_and_reset [OF ne nf k z b1 b2] ne b1 b2 c
  show ?thesis unfolding n by simp
qed

end
